theory Spec2Isabelle
  imports Main "HOL-Library.Word" "HOL-Library.List_Lexorder"
begin

section \<open>Data model (types.ts)\<close>

text \<open>
  A JavaScript string is a sequence of 16-bit code units. \<^verbatim>\<open>===\<close> on strings is
  equality of these sequences, and the default comparison of \<^verbatim>\<open>Array.prototype.sort\<close>
  orders strings lexicographically by code unit, which is the order that
  \<open>List_Lexorder\<close> puts on lists of words. The fields \<^verbatim>\<open>from\<close> and \<^verbatim>\<open>to\<close> of a
  transition are \<open>from_st\<close> and \<open>to_st\<close> here, the source's names being keywords.
\<close>

type_synonym jsstring = "16 word list"

record transition =
  from_st :: jsstring
  to_st :: jsstring
  symbol :: jsstring

record automaton =
  states :: "jsstring list"
  alphabet :: "jsstring list"
  transitions :: "transition list"
  initialState :: jsstring
  finalStates :: "jsstring list"

text \<open>
  \<^verbatim>\<open>EpsilonClosureMap\<close> is a plain object, created by \<^verbatim>\<open>{}\<close>. Its own properties are
  its entries, the ones that \<^verbatim>\<open>Object.keys\<close> and \<^verbatim>\<open>Object.entries\<close> list. Its prototype is
  \<^verbatim>\<open>Object.prototype\<close> until an assignment to the key \<^verbatim>\<open>__proto__\<close> replaces it:
  \<open>proto_array\<close> is \<open>None\<close> at first and then the array that has become the prototype.
\<close>

record EpsilonClosureMap =
  own_props :: "jsstring \<rightharpoonup> jsstring list"
  proto_array :: "jsstring list option"

text \<open>The key \<^verbatim>\<open>__proto__\<close>, and the object that \<^verbatim>\<open>{}\<close> creates.\<close>

definition PROTO :: jsstring where
  "PROTO = [0x5F, 0x5F, 0x70, 0x72, 0x6F, 0x74, 0x6F, 0x5F, 0x5F]"

definition empty_object :: EpsilonClosureMap where
  "empty_object = \<lparr>own_props = Map.empty, proto_array = None\<rparr>"

text \<open>
  The assignment \<^verbatim>\<open>map[k] = v\<close> of an array \<open>v\<close>. For every key but \<^verbatim>\<open>__proto__\<close> it
  creates or overwrites the own property \<open>k\<close> (the members that a plain object or an array
  inherits under other names are writable data properties, which an assignment shadows).
  For \<^verbatim>\<open>__proto__\<close> it runs the setter inherited from \<^verbatim>\<open>Object.prototype\<close>: the array
  becomes the prototype of the object, and no property is created.
\<close>

definition set_prop :: "EpsilonClosureMap \<Rightarrow> jsstring \<Rightarrow> jsstring list \<Rightarrow> EpsilonClosureMap" where
  "set_prop m k v =
     (if k = PROTO then m\<lparr>proto_array := Some v\<rparr>
      else m\<lparr>own_props := (own_props m)(k \<mapsto> v)\<rparr>)"

text \<open>
  The lookup \<^verbatim>\<open>map[k]\<close>, as far as the converter can use its value: \<open>Some\<close> of an array of
  strings, or \<open>None\<close> for everything that is not one. An own property is found first.
  Without one, the key \<^verbatim>\<open>__proto__\<close> yields the prototype, an array once it has been
  assigned; every other key yields \<^verbatim>\<open>undefined\<close> or a member inherited from
  \<^verbatim>\<open>Object.prototype\<close>, from \<^verbatim>\<open>Array.prototype\<close> or from the prototype array (a
  function, a number or a string): none of these has a \<^verbatim>\<open>forEach\<close> method, so the one
  place that dereferences such a lookup raises a \<^verbatim>\<open>TypeError\<close> in every case.
\<close>

type_synonym closure_lookup = "jsstring \<rightharpoonup> jsstring list"

definition get_prop :: "EpsilonClosureMap \<Rightarrow> closure_lookup" where
  "get_prop m k =
     (case own_props m k of
        Some v \<Rightarrow> Some v
      | None \<Rightarrow> if k = PROTO then proto_array m else None)"

text \<open>The two spellings of the epsilon marker that the converter tests for:
  the empty string and the one-code-unit string U+03B5.\<close>

definition EPSILON :: jsstring where
  "EPSILON = [0x03B5]"

definition isEpsilon :: "jsstring \<Rightarrow> bool" where
  "isEpsilon s \<longleftrightarrow> s = [] \<or> s = EPSILON"

section \<open>Epsilon closure of one state (nfaConverter.ts, lines 7-29)\<close>

text \<open>
  A \<^verbatim>\<open>Set<string>\<close> iterates in insertion order, so it is a duplicate-free list;
  \<open>set_add\<close> is \<^verbatim>\<open>Set.prototype.add\<close>.
\<close>

definition set_add :: "'a list \<Rightarrow> 'a \<Rightarrow> 'a list" where
  "set_add s x = (if x \<in> set s then s else s @ [x])"

text \<open>Lines 16-18: the targets of the epsilon edges leaving \<open>current\<close>, in the order
  of the transition array.\<close>

definition epsilonMoves :: "transition list \<Rightarrow> jsstring \<Rightarrow> jsstring list" where
  "epsilonMoves ts current =
     map to_st (filter (\<lambda>t. from_st t = current \<and> (symbol t = [] \<or> symbol t = EPSILON)) ts)"

text \<open>Lines 20-25: the \<^verbatim>\<open>for\<close> loop over \<open>epsilonMoves\<close>. The state is the pair
  (closure, stack); the stack is kept top first, so \<^verbatim>\<open>push\<close> is \<open>#\<close>.\<close>

fun expand :: "jsstring list \<Rightarrow> jsstring list \<times> jsstring list \<Rightarrow> jsstring list \<times> jsstring list" where
  "expand [] (closure, stack) = (closure, stack)"
| "expand (next # rest) (closure, stack) =
     (if next \<notin> set closure
      then expand rest (closure @ [next], next # stack)
      else expand rest (closure, stack))"

text \<open>Lines 14-26: the \<^verbatim>\<open>while\<close> loop. \<^verbatim>\<open>pop\<close> takes the top of the stack.\<close>

function closure_loop :: "transition list \<Rightarrow> jsstring list \<times> jsstring list \<Rightarrow> jsstring list" where
  "closure_loop ts (closure, []) = closure"
| "closure_loop ts (closure, current # stack) =
     closure_loop ts (expand (epsilonMoves ts current) (closure, stack))"
  by pat_completeness auto

text \<open>Lines 11, 12 and 28: closure and stack both start as the state alone; the result
  is the closure in insertion order (\<^verbatim>\<open>Array.from\<close>), sorted.\<close>

definition computeStateEpsilonClosure :: "jsstring \<Rightarrow> transition list \<Rightarrow> jsstring list" where
  "computeStateEpsilonClosure state ts = sort (closure_loop ts ([state], [state]))"

section \<open>Closure map (nfaConverter.ts, lines 34-40)\<close>

definition computeAllEpsilonClosures :: "automaton \<Rightarrow> EpsilonClosureMap" where
  "computeAllEpsilonClosures enfa =
     fold (\<lambda>state m. set_prop m state (computeStateEpsilonClosure state (transitions enfa)))
       (states enfa) empty_object"

section \<open>Conversion (nfaConverter.ts, lines 49-100)\<close>

text \<open>The only failure the converter can raise: a method call on a closure-map lookup
  that found no array.\<close>

datatype error = TypeError

text \<open>A \<^verbatim>\<open>for\<close> loop whose body updates an accumulator and may throw; a throw leaves
  the loop and the function.\<close>

fun for_each :: "('a \<Rightarrow> 's \<Rightarrow> error + 's) \<Rightarrow> 'a list \<Rightarrow> 's \<Rightarrow> error + 's" where
  "for_each body [] acc = Inr acc"
| "for_each body (x # xs) acc =
     (case body x acc of Inl e \<Rightarrow> Inl e | Inr acc' \<Rightarrow> for_each body xs acc')"

text \<open>Line 52.\<close>

definition alphabetWithoutEpsilon :: "automaton \<Rightarrow> jsstring list" where
  "alphabetWithoutEpsilon enfa = filter (\<lambda>a. a \<noteq> [] \<and> a \<noteq> EPSILON) (alphabet enfa)"

text \<open>Lines 59-66: the set of states reached from a member of \<open>qClosure\<close> by one
  \<open>a\<close>-labelled transition.\<close>

definition reachedAfterSymbol :: "transition list \<Rightarrow> jsstring list \<Rightarrow> jsstring \<Rightarrow> jsstring list" where
  "reachedAfterSymbol ts qClosure a =
     fold (\<lambda>p reached.
             fold (\<lambda>t r. set_add r (to_st t))
               (filter (\<lambda>t. from_st t = p \<and> symbol t = a) ts) reached)
       qClosure []"

text \<open>Lines 69-72: the closure map is applied to every state reached. The lookup
  \<^verbatim>\<open>closures[s]\<close> of a state without an entry has no \<^verbatim>\<open>forEach\<close>: a \<^verbatim>\<open>TypeError\<close>.\<close>

definition finalReached :: "closure_lookup \<Rightarrow> jsstring list \<Rightarrow> error + jsstring list" where
  "finalReached closures reached =
     for_each (\<lambda>s acc. case closures s of
                          None \<Rightarrow> Inl TypeError
                        | Some cs \<Rightarrow> Inr (fold (\<lambda>c acc'. set_add acc' c) cs acc))
       reached []"

text \<open>Lines 75-80: one transition per target, unless the same triple is already in
  \<open>newTransitions\<close>.\<close>

definition pushTransitions ::
  "jsstring \<Rightarrow> jsstring \<Rightarrow> jsstring list \<Rightarrow> transition list \<Rightarrow> transition list" where
  "pushTransitions q a targets newTransitions =
     fold (\<lambda>target nt.
             if List.find (\<lambda>t. from_st t = q \<and> to_st t = target \<and> symbol t = a) nt = None
             then nt @ [\<lparr>from_st = q, to_st = target, symbol = a\<rparr>]
             else nt)
       targets newTransitions"

text \<open>Lines 58-80: the body of the two nested loops, for one state and one symbol.
  Iterating over a missing \<^verbatim>\<open>closures[q]\<close> would be a \<^verbatim>\<open>TypeError\<close> as well.\<close>

definition projectPair ::
  "automaton \<Rightarrow> closure_lookup \<Rightarrow> jsstring \<Rightarrow> jsstring \<Rightarrow> transition list
     \<Rightarrow> error + transition list" where
  "projectPair enfa closures q a newTransitions =
     (case closures q of
        None \<Rightarrow> Inl TypeError
      | Some qClosure \<Rightarrow>
          (case finalReached closures (reachedAfterSymbol (transitions enfa) qClosure a) of
             Inl e \<Rightarrow> Inl e
           | Inr targets \<Rightarrow> Inr (pushTransitions q a targets newTransitions)))"

text \<open>Lines 56-82.\<close>

definition projectTransitions :: "automaton \<Rightarrow> closure_lookup \<Rightarrow> error + transition list" where
  "projectTransitions enfa closures =
     for_each (\<lambda>q. for_each (projectPair enfa closures q) (alphabetWithoutEpsilon enfa))
       (states enfa) []"

text \<open>Lines 85-88: the states whose closure holds an original final state, in the
  order of \<open>states\<close>.\<close>

definition selectFinalStates :: "automaton \<Rightarrow> closure_lookup \<Rightarrow> error + jsstring list" where
  "selectFinalStates enfa closures =
     for_each (\<lambda>q kept. case closures q of
                           None \<Rightarrow> Inl TypeError
                         | Some qClosure \<Rightarrow>
                             Inr (if list_ex (\<lambda>s. s \<in> set (finalStates enfa)) qClosure
                                  then kept @ [q] else kept))
       (states enfa) []"

record conversion =
  nfa :: automaton
  closures :: EpsilonClosureMap

definition convertENFAToNFA :: "automaton \<Rightarrow> error + conversion" where
  "convertENFAToNFA enfa =
     (let closures = computeAllEpsilonClosures enfa in
      case projectTransitions enfa (get_prop closures) of
        Inl e \<Rightarrow> Inl e
      | Inr newTransitions \<Rightarrow>
          (case selectFinalStates enfa (get_prop closures) of
             Inl e \<Rightarrow> Inl e
           | Inr newFinalStates \<Rightarrow>
               Inr \<lparr>nfa = \<lparr>states = states enfa,
                           alphabet = alphabetWithoutEpsilon enfa,
                           transitions = newTransitions,
                           initialState = initialState enfa,
                           finalStates = newFinalStates\<rparr>,
                    closures = closures\<rparr>))"

section \<open>The converter over an explicit store\<close>

text \<open>
  The same three functions once more, with every object that JavaScript passes by
  reference placed in a store: arrays and \<^verbatim>\<open>Set\<close>s of strings, arrays of transitions, the
  closure map and automaton objects. A variable holds an address; reading goes through
  the store, and each mutating method (\<^verbatim>\<open>push\<close>, \<^verbatim>\<open>pop\<close>, \<^verbatim>\<open>add\<close>, \<^verbatim>\<open>sort\<close>, an indexed
  assignment) rewrites the cell of the object it is called on. Strings are immutable
  values, and no statement of the source assigns to a property of a transition object,
  so both stay values. The arrays that \<^verbatim>\<open>filter\<close> and \<^verbatim>\<open>map\<close> return and that are only
  iterated also stay values. A loop runs over the elements that its array or \<^verbatim>\<open>Set\<close>
  has when the loop starts: no loop body of the source writes to the object its loop
  iterates over. The cell of the closure map holds, for each key, the address of the array
  that a lookup of the key yields. An assignment under the key \<^verbatim>\<open>__proto__\<close> changes the
  prototype of the map it is made on and of no other object, so it is a write to that
  cell like every other assignment to the map; which keys the map lists as its entries
  is what \<open>own_props\<close> records above.
\<close>

record automaton_obj =
  states_at :: nat
  alphabet_at :: nat
  transitions_at :: nat
  initialState_of :: jsstring
  finalStates_at :: nat

datatype obj =
    Strs "jsstring list"
  | Trans "transition list"
  | Clos "jsstring \<rightharpoonup> nat"
  | Aut automaton_obj

record store =
  cells :: "nat \<rightharpoonup> obj"
  next_free :: nat

text \<open>Creating an object takes the next free address; a write replaces the cell of an
  address.\<close>

definition alloc :: "obj \<Rightarrow> store \<Rightarrow> nat \<times> store" where
  "alloc v h = (next_free h, \<lparr>cells = (cells h)(next_free h \<mapsto> v), next_free = Suc (next_free h)\<rparr>)"

definition put :: "nat \<Rightarrow> obj \<Rightarrow> store \<Rightarrow> store" where
  "put a v h = h\<lparr>cells := (cells h)(a \<mapsto> v)\<rparr>"

text \<open>Typed reads. The program is well typed, so a read finds the kind of object it
  expects; the other cases are given an empty value.\<close>

definition get_strs :: "store \<Rightarrow> nat \<Rightarrow> jsstring list" where
  "get_strs h a = (case cells h a of Some (Strs xs) \<Rightarrow> xs | _ \<Rightarrow> [])"

definition get_trans :: "store \<Rightarrow> nat \<Rightarrow> transition list" where
  "get_trans h a = (case cells h a of Some (Trans ts) \<Rightarrow> ts | _ \<Rightarrow> [])"

definition get_clos :: "store \<Rightarrow> nat \<Rightarrow> jsstring \<rightharpoonup> nat" where
  "get_clos h a = (case cells h a of Some (Clos m) \<Rightarrow> m | _ \<Rightarrow> Map.empty)"

definition get_aut :: "store \<Rightarrow> nat \<Rightarrow> automaton_obj" where
  "get_aut h a =
     (case cells h a of
        Some (Aut r) \<Rightarrow> r
      | _ \<Rightarrow> \<lparr>states_at = a, alphabet_at = a, transitions_at = a,
              initialState_of = [], finalStates_at = a\<rparr>)"

text \<open>\<^verbatim>\<open>Set.prototype.add\<close> and \<^verbatim>\<open>Array.prototype.push\<close> on the object at an address.\<close>

definition add_at :: "nat \<Rightarrow> jsstring \<Rightarrow> store \<Rightarrow> store" where
  "add_at s x h = put s (Strs (set_add (get_strs h s) x)) h"

definition push_at :: "nat \<Rightarrow> jsstring \<Rightarrow> store \<Rightarrow> store" where
  "push_at s x h = put s (Strs (get_strs h s @ [x])) h"

text \<open>Lines 14-26 over the store. The stack is the array itself, its top at the end.
  Nothing in the loop says that it ends when \<open>closure\<close> and \<open>stack\<close> may be the same
  object, so not returning is the value \<open>None\<close>.\<close>

partial_function (option) closure_loop_at :: "nat \<Rightarrow> nat \<Rightarrow> nat \<Rightarrow> store \<Rightarrow> store option" where
  "closure_loop_at ts closure stack h =
     (if get_strs h stack = [] then Some h
      else
        closure_loop_at ts closure stack
          (fold (\<lambda>next h'. if next \<notin> set (get_strs h' closure)
                            then push_at stack next (add_at closure next h')
                            else h')
             (epsilonMoves (get_trans (put stack (Strs (butlast (get_strs h stack))) h) ts)
                (last (get_strs h stack)))
             (put stack (Strs (butlast (get_strs h stack))) h)))"

text \<open>Lines 11-28: two new objects, the loop, then \<^verbatim>\<open>Array.from\<close> makes a third, which
  \<^verbatim>\<open>sort\<close> reorders in place. The result is the address of that array.\<close>

definition computeStateEpsilonClosure_at :: "jsstring \<Rightarrow> nat \<Rightarrow> store \<Rightarrow> (nat \<times> store) option" where
  "computeStateEpsilonClosure_at state ts h =
     (let (closure, h1) = alloc (Strs [state]) h;
          (stack, h2) = alloc (Strs [state]) h1
      in case closure_loop_at ts closure stack h2 of
           None \<Rightarrow> None
         | Some h3 \<Rightarrow>
             let (arr, h4) = alloc (Strs (get_strs h3 closure)) h3
             in Some (arr, put arr (Strs (sort (get_strs h4 arr))) h4))"

text \<open>Lines 36-38: the callback of \<^verbatim>\<open>forEach\<close>, once per state.\<close>

fun closures_loop_at :: "nat \<Rightarrow> nat \<Rightarrow> jsstring list \<Rightarrow> store \<Rightarrow> store option" where
  "closures_loop_at enfa m [] h = Some h"
| "closures_loop_at enfa m (state # rest) h =
     (case computeStateEpsilonClosure_at state (transitions_at (get_aut h enfa)) h of
        None \<Rightarrow> None
      | Some (arr, h') \<Rightarrow>
          closures_loop_at enfa m rest (put m (Clos ((get_clos h' m)(state \<mapsto> arr))) h'))"

definition computeAllEpsilonClosures_at :: "nat \<Rightarrow> store \<Rightarrow> (nat \<times> store) option" where
  "computeAllEpsilonClosures_at enfa h =
     (let (m, h1) = alloc (Clos Map.empty) h
      in case closures_loop_at enfa m (get_strs h1 (states_at (get_aut h1 enfa))) h1 of
           None \<Rightarrow> None
         | Some h2 \<Rightarrow> Some (m, h2))"

text \<open>A loop over the store whose body may throw; the store at the throw is kept.\<close>

fun for_each_at :: "('a \<Rightarrow> store \<Rightarrow> store \<times> error option) \<Rightarrow> 'a list \<Rightarrow> store \<Rightarrow> store \<times> error option" where
  "for_each_at body [] h = (h, None)"
| "for_each_at body (x # xs) h =
     (case body x h of
        (h', Some e) \<Rightarrow> (h', Some e)
      | (h', None) \<Rightarrow> for_each_at body xs h')"

text \<open>Lines 58-80 for one state and one symbol.\<close>

definition projectPair_at ::
  "nat \<Rightarrow> nat \<Rightarrow> nat \<Rightarrow> jsstring \<Rightarrow> jsstring \<Rightarrow> store \<Rightarrow> store \<times> error option" where
  "projectPair_at enfa closures' newTransitions q a h =
     (let (reachedAfterSymbol, h1) = alloc (Strs []) h
      in case get_clos h1 closures' q of
           None \<Rightarrow> (h1, Some TypeError)
         | Some qClosure \<Rightarrow>
             let h2 = fold (\<lambda>p h'.
                        fold (\<lambda>t. add_at reachedAfterSymbol (to_st t))
                          (filter (\<lambda>t. from_st t = p \<and> symbol t = a)
                             (get_trans h' (transitions_at (get_aut h' enfa)))) h')
                        (get_strs h1 qClosure) h1;
                 (finalReached, h3) = alloc (Strs []) h2
             in case for_each_at
                       (\<lambda>s h'. case get_clos h' closures' s of
                                  None \<Rightarrow> (h', Some TypeError)
                                | Some cs \<Rightarrow> (fold (add_at finalReached) (get_strs h' cs) h', None))
                       (get_strs h3 reachedAfterSymbol) h3 of
                  (h4, Some e) \<Rightarrow> (h4, Some e)
                | (h4, None) \<Rightarrow>
                    (fold (\<lambda>target h'.
                             if List.find (\<lambda>t. from_st t = q \<and> to_st t = target \<and> symbol t = a)
                                  (get_trans h' newTransitions) = None
                             then put newTransitions
                                    (Trans (get_trans h' newTransitions
                                            @ [\<lparr>from_st = q, to_st = target, symbol = a\<rparr>])) h'
                             else h')
                       (get_strs h4 finalReached) h4,
                     None))"

text \<open>Lines 85-88: \<^verbatim>\<open>filter\<close>, \<^verbatim>\<open>some\<close> and \<^verbatim>\<open>includes\<close> only read.\<close>

definition selectFinalStates_at :: "nat \<Rightarrow> nat \<Rightarrow> store \<Rightarrow> error + jsstring list" where
  "selectFinalStates_at enfa closures' h =
     for_each (\<lambda>q kept. case get_clos h closures' q of
                           None \<Rightarrow> Inl TypeError
                         | Some qClosure \<Rightarrow>
                             Inr (if list_ex (\<lambda>s. s \<in> set (get_strs h (finalStates_at (get_aut h enfa))))
                                       (get_strs h qClosure)
                                  then kept @ [q] else kept))
       (get_strs h (states_at (get_aut h enfa))) []"

text \<open>Lines 49-100. The result is the store after the call together with either the
  error thrown or the addresses of the new automaton object and of the closure map. The
  new automaton object shares the \<open>states\<close> array of the input.\<close>

definition convertENFAToNFA_at :: "nat \<Rightarrow> store \<Rightarrow> (store \<times> (error + nat \<times> nat)) option" where
  "convertENFAToNFA_at enfa h =
     (case computeAllEpsilonClosures_at enfa h of
        None \<Rightarrow> None
      | Some (closures', h1) \<Rightarrow>
          let (newTransitions, h2) = alloc (Trans []) h1;
              (alphabetWithoutEpsilon, h3) =
                 alloc (Strs (filter (\<lambda>a. a \<noteq> [] \<and> a \<noteq> EPSILON)
                                (get_strs h2 (alphabet_at (get_aut h2 enfa))))) h2
          in case for_each_at
                    (\<lambda>q h'. for_each_at (projectPair_at enfa closures' newTransitions q)
                               (get_strs h' alphabetWithoutEpsilon) h')
                    (get_strs h3 (states_at (get_aut h3 enfa))) h3 of
               (h4, Some e) \<Rightarrow> Some (h4, Inl e)
             | (h4, None) \<Rightarrow>
                 (case selectFinalStates_at enfa closures' h4 of
                    Inl e \<Rightarrow> Some (h4, Inl e)
                  | Inr kept \<Rightarrow>
                      let (newFinalStates, h5) = alloc (Strs kept) h4;
                          (nfa, h6) =
                             alloc (Aut \<lparr>states_at = states_at (get_aut h5 enfa),
                                         alphabet_at = alphabetWithoutEpsilon,
                                         transitions_at = newTransitions,
                                         initialState_of = initialState_of (get_aut h5 enfa),
                                         finalStates_at = newFinalStates\<rparr>) h5
                      in Some (h6, Inr (nfa, closures'))))"

text \<open>An automaton object of the store and the automaton value it holds.\<close>

definition automaton_at :: "store \<Rightarrow> nat \<Rightarrow> automaton" where
  "automaton_at h a =
     \<lparr>states = get_strs h (states_at (get_aut h a)),
      alphabet = get_strs h (alphabet_at (get_aut h a)),
      transitions = get_trans h (transitions_at (get_aut h a)),
      initialState = initialState_of (get_aut h a),
      finalStates = get_strs h (finalStates_at (get_aut h a))\<rparr>"


text \<open>The store \<open>h'\<close> has every object of the addresses below \<open>n\<close>, those of \<open>A\<close> apart, as
  the store \<open>h\<close> has it, and has not given up any of these addresses.\<close>

definition unchanged_except :: "nat set \<Rightarrow> nat \<Rightarrow> store \<Rightarrow> store \<Rightarrow> bool" where
  "unchanged_except A n h h' \<longleftrightarrow>
     n \<le> next_free h' \<and> (\<forall>a<n. a \<notin> A \<longrightarrow> cells h' a = cells h a)"

text \<open>The closure map that the store holds at an address, as a value.\<close>

definition closures_at :: "store \<Rightarrow> nat \<Rightarrow> closure_lookup" where
  "closures_at h m = (\<lambda>s. map_option (get_strs h) (get_clos h m s))"

text \<open>The automaton object at \<open>enfa\<close> and the arrays it names have been allocated.\<close>

definition allocated_automaton :: "store \<Rightarrow> nat \<Rightarrow> bool" where
  "allocated_automaton h enfa \<longleftrightarrow>
     enfa < next_free h \<and> states_at (get_aut h enfa) < next_free h
     \<and> alphabet_at (get_aut h enfa) < next_free h
     \<and> transitions_at (get_aut h enfa) < next_free h
     \<and> finalStates_at (get_aut h enfa) < next_free h"

text \<open>What the projection loops read and do not write, in the store \<open>hE\<close> in which they
  start: the automaton object, its transition array, the closure map and the closure
  arrays are allocated and are not the array \<open>nt\<close> of new transitions.\<close>

definition projection_env :: "store \<Rightarrow> nat \<Rightarrow> nat \<Rightarrow> nat \<Rightarrow> bool" where
  "projection_env hE enfa m nt \<longleftrightarrow>
     nt < next_free hE \<and> enfa < next_free hE \<and> enfa \<noteq> nt
     \<and> transitions_at (get_aut hE enfa) < next_free hE \<and> transitions_at (get_aut hE enfa) \<noteq> nt
     \<and> m < next_free hE \<and> m \<noteq> nt
     \<and> (\<forall>s a. get_clos hE m s = Some a \<longrightarrow> a < next_free hE \<and> a \<noteq> nt)"

section \<open>The notions of the specification\<close>

text \<open>The epsilon edges of a transition relation, and the epsilon closure as the
  specification defines it: the states reachable from a state of \<open>S\<close> over epsilon edges
  alone, the states of \<open>S\<close> included. The closure of one state \<open>q\<close> is that of \<open>{q}\<close>.\<close>

definition eps_edges :: "transition list \<Rightarrow> (jsstring \<times> jsstring) set" where
  "eps_edges ts = {(from_st t, to_st t) | t. t \<in> set ts \<and> isEpsilon (symbol t)}"

definition eps_closure :: "transition list \<Rightarrow> jsstring set \<Rightarrow> jsstring set" where
  "eps_closure ts S = (eps_edges ts)\<^sup>* `` S"

text \<open>The symbol step of the specification: the targets of the \<open>a\<close>-labelled transitions
  that leave a state of \<open>P\<close>.\<close>

definition symbol_step :: "transition list \<Rightarrow> jsstring set \<Rightarrow> jsstring \<Rightarrow> jsstring set" where
  "symbol_step ts P a = {to_st t | t. t \<in> set ts \<and> from_st t \<in> P \<and> symbol t = a}"

text \<open>The transformed transition function of the specification,
  \<open>\<delta>'(q, a) = \<epsilon>-closure(\<delta>(\<epsilon>-closure(q), a))\<close>.\<close>

definition projected :: "transition list \<Rightarrow> jsstring \<Rightarrow> jsstring \<Rightarrow> jsstring set" where
  "projected ts q a = eps_closure ts (symbol_step ts (eps_closure ts {q}) a)"

text \<open>Every symbol step that the projection takes, from the closure of a declared state
  on a symbol of the epsilon-free alphabet, ends in a declared state.\<close>

definition steps_in_states :: "automaton \<Rightarrow> bool" where
  "steps_in_states e \<longleftrightarrow>
     (\<forall>q\<in>set (states e). \<forall>a\<in>set (alphabetWithoutEpsilon e).
        symbol_step (transitions e) (eps_closure (transitions e) {q}) a \<subseteq> set (states e))"

text \<open>The invariants of the specification's data model (its section 3), one predicate
  each, and the condition of having no epsilon transition.\<close>

definition initial_in_states :: "automaton \<Rightarrow> bool" where
  "initial_in_states e \<longleftrightarrow> initialState e \<in> set (states e)"

definition finals_in_states :: "automaton \<Rightarrow> bool" where
  "finals_in_states e \<longleftrightarrow> set (finalStates e) \<subseteq> set (states e)"

definition endpoints_in_states :: "automaton \<Rightarrow> bool" where
  "endpoints_in_states e \<longleftrightarrow>
     list_all (\<lambda>t. from_st t \<in> set (states e) \<and> to_st t \<in> set (states e)) (transitions e)"

definition symbols_in_alphabet :: "automaton \<Rightarrow> bool" where
  "symbols_in_alphabet e \<longleftrightarrow>
     list_all (\<lambda>t. isEpsilon (symbol t) \<or> symbol t \<in> set (alphabet e)) (transitions e)"

definition no_epsilon_transitions :: "automaton \<Rightarrow> bool" where
  "no_epsilon_transitions e \<longleftrightarrow> list_all (\<lambda>t. \<not> isEpsilon (symbol t)) (transitions e)"

text \<open>The targets the result table shows for a state and a symbol (App.tsx, the
  transition table: \<^verbatim>\<open>nfa.transitions.filter(...).map(t => t.to)\<close>).\<close>

definition targets_of :: "automaton \<Rightarrow> jsstring \<Rightarrow> jsstring \<Rightarrow> jsstring list" where
  "targets_of n state a = map to_st (filter (\<lambda>t. from_st t = state \<and> symbol t = a) (transitions n))"

section \<open>Concrete automata\<close>

text \<open>State and symbol names as code units: the letters A, B, C, X, Y, Z and the
  digits 0 and 1.\<close>

abbreviation st_A :: jsstring where "st_A \<equiv> [0x41]"
abbreviation st_B :: jsstring where "st_B \<equiv> [0x42]"
abbreviation st_C :: jsstring where "st_C \<equiv> [0x43]"
abbreviation st_X :: jsstring where "st_X \<equiv> [0x58]"
abbreviation st_Y :: jsstring where "st_Y \<equiv> [0x59]"
abbreviation st_Z :: jsstring where "st_Z \<equiv> [0x5A]"
abbreviation sym_0 :: jsstring where "sym_0 \<equiv> [0x30]"
abbreviation sym_1 :: jsstring where "sym_1 \<equiv> [0x31]"

text \<open>The worked example of the repository (\<^verbatim>\<open>INITIAL_ENFA\<close>).\<close>

definition INITIAL_ENFA :: automaton where
  "INITIAL_ENFA =
     \<lparr>states = [st_A, st_B, st_C],
      alphabet = [sym_0, sym_1, [0x03B5]],
      transitions =
        [\<lparr>from_st = st_A, to_st = st_A, symbol = sym_0\<rparr>,
         \<lparr>from_st = st_A, to_st = st_B, symbol = [0x03B5]\<rparr>,
         \<lparr>from_st = st_B, to_st = st_B, symbol = sym_1\<rparr>,
         \<lparr>from_st = st_B, to_st = st_C, symbol = [0x03B5]\<rparr>,
         \<lparr>from_st = st_C, to_st = st_C, symbol = sym_0\<rparr>],
      initialState = st_A,
      finalStates = [st_C]\<rparr>"

text \<open>What the converter returns for it.\<close>

definition INITIAL_RESULT :: conversion where
  "INITIAL_RESULT =
     \<lparr>nfa =
        \<lparr>states = [st_A, st_B, st_C],
         alphabet = [sym_0, sym_1],
         transitions =
           [\<lparr>from_st = st_A, to_st = st_A, symbol = sym_0\<rparr>,
            \<lparr>from_st = st_A, to_st = st_B, symbol = sym_0\<rparr>,
            \<lparr>from_st = st_A, to_st = st_C, symbol = sym_0\<rparr>,
            \<lparr>from_st = st_A, to_st = st_B, symbol = sym_1\<rparr>,
            \<lparr>from_st = st_A, to_st = st_C, symbol = sym_1\<rparr>,
            \<lparr>from_st = st_B, to_st = st_C, symbol = sym_0\<rparr>,
            \<lparr>from_st = st_B, to_st = st_B, symbol = sym_1\<rparr>,
            \<lparr>from_st = st_B, to_st = st_C, symbol = sym_1\<rparr>,
            \<lparr>from_st = st_C, to_st = st_C, symbol = sym_0\<rparr>],
         initialState = st_A,
         finalStates = [st_A, st_B, st_C]\<rparr>,
      closures =
        \<lparr>own_props = [st_A \<mapsto> [st_A, st_B, st_C], st_B \<mapsto> [st_B, st_C], st_C \<mapsto> [st_C]],
         proto_array = None\<rparr>\<rparr>"

text \<open>Automata that break one invariant of the data model each. \<open>FINAL_OUTSIDE\<close> has a
  final state that is not declared; \<open>UNDECLARED_SYMBOL\<close> a transition on a symbol that is
  not in the alphabet; \<open>UNDECLARED_FROM\<close> a transition that leaves an undeclared state;
  \<open>DANGLING_TO\<close> a transition into an undeclared state.\<close>

definition FINAL_OUTSIDE :: automaton where
  "FINAL_OUTSIDE =
     \<lparr>states = [st_A], alphabet = [sym_0], transitions = [],
      initialState = st_A, finalStates = [st_B]\<rparr>"

definition UNDECLARED_SYMBOL :: automaton where
  "UNDECLARED_SYMBOL =
     \<lparr>states = [st_A], alphabet = [sym_0],
      transitions = [\<lparr>from_st = st_A, to_st = st_A, symbol = sym_1\<rparr>],
      initialState = st_A, finalStates = [st_A]\<rparr>"

definition UNDECLARED_FROM :: automaton where
  "UNDECLARED_FROM =
     \<lparr>states = [st_A], alphabet = [sym_0],
      transitions = [\<lparr>from_st = st_B, to_st = st_A, symbol = sym_0\<rparr>],
      initialState = st_A, finalStates = [st_A]\<rparr>"

definition DANGLING_TO :: automaton where
  "DANGLING_TO =
     \<lparr>states = [st_A], alphabet = [sym_0],
      transitions = [\<lparr>from_st = st_A, to_st = st_B, symbol = sym_0\<rparr>],
      initialState = st_A, finalStates = [st_A]\<rparr>"

text \<open>An automaton that breaks four invariants at once: the initial state, the final
  state and the source of its transition are undeclared, and so is the transition's
  symbol.\<close>

definition MALFORMED :: automaton where
  "MALFORMED =
     \<lparr>states = [st_A], alphabet = [sym_0],
      transitions = [\<lparr>from_st = st_Z, to_st = st_A, symbol = sym_1\<rparr>],
      initialState = st_Z, finalStates = [st_Z]\<rparr>"

text \<open>A well-formed automaton without epsilon transitions.\<close>

definition PLAIN_NFA :: automaton where
  "PLAIN_NFA =
     \<lparr>states = [st_A, st_B], alphabet = [sym_0, sym_1],
      transitions =
        [\<lparr>from_st = st_A, to_st = st_B, symbol = sym_0\<rparr>,
         \<lparr>from_st = st_A, to_st = st_A, symbol = sym_0\<rparr>,
         \<lparr>from_st = st_B, to_st = st_A, symbol = sym_1\<rparr>],
      initialState = st_A, finalStates = [st_B]\<rparr>"

text \<open>A store that holds the worked example: its four arrays at the addresses 0 to 3 and
  the automaton object at 4.\<close>

definition INITIAL_STORE :: store where
  "INITIAL_STORE =
     \<lparr>cells =
        [0 \<mapsto> Strs (states INITIAL_ENFA),
         1 \<mapsto> Strs (alphabet INITIAL_ENFA),
         2 \<mapsto> Trans (transitions INITIAL_ENFA),
         3 \<mapsto> Strs (finalStates INITIAL_ENFA),
         4 \<mapsto> Aut \<lparr>states_at = 0, alphabet_at = 1, transitions_at = 2,
                      initialState_of = initialState INITIAL_ENFA, finalStates_at = 3\<rparr>],
      next_free = 5\<rparr>"


text \<open>An automaton with a state named \<^verbatim>\<open>__proto__\<close>, reached from A by an epsilon
  transition.\<close>

definition PROTO_ENFA :: automaton where
  "PROTO_ENFA =
     \<lparr>states = [st_A, PROTO], alphabet = [sym_0],
      transitions = [\<lparr>from_st = st_A, to_st = PROTO, symbol = [0x03B5]\<rparr>],
      initialState = st_A, finalStates = [PROTO]\<rparr>"

text \<open>The two-state epsilon cycle: X to Y and Y to X.\<close>

definition EPSILON_CYCLE :: "transition list" where
  "EPSILON_CYCLE =
     [\<lparr>from_st = st_X, to_st = st_Y, symbol = [0x03B5]\<rparr>,
      \<lparr>from_st = st_Y, to_st = st_X, symbol = [0x03B5]\<rparr>]"

section \<open>The closure loop terminates\<close>

text \<open>What the inner loop does to closure and stack: it appends the new targets to the
  closure and pushes them, and it keeps a duplicate-free closure duplicate-free.\<close>

lemma expand_shape:
  "\<exists>new. expand ms (c, st) = (c @ new, rev new @ st) \<and> set new = set ms - set c
         \<and> (distinct c \<longrightarrow> distinct (c @ new))"
proof (induction ms arbitrary: c st)
  case Nil
  show ?case by simp
next
  case (Cons m ms)
  show ?case
  proof (cases "m \<in> set c")
    case True
    from Cons.IH[of c st] obtain new where
      "expand ms (c, st) = (c @ new, rev new @ st)" "set new = set ms - set c"
      "distinct c \<longrightarrow> distinct (c @ new)" by blast
    with True show ?thesis by auto
  next
    case False
    from Cons.IH[of "c @ [m]" "m # st"] obtain new where
      n: "expand ms (c @ [m], m # st) = ((c @ [m]) @ new, rev new @ m # st)"
      "set new = set ms - set (c @ [m])"
      "distinct (c @ [m]) \<longrightarrow> distinct ((c @ [m]) @ new)" by blast
    have "expand (m # ms) (c, st) = (c @ (m # new), rev (m # new) @ st)"
      using False n(1) by simp
    moreover have "set (m # new) = set (m # ms) - set c"
      using False n(2) by auto
    moreover have "distinct c \<longrightarrow> distinct (c @ (m # new))"
      using False n(3) by auto
    ultimately show ?thesis by blast
  qed
qed

text \<open>Every iteration either adds a new target of some transition to the closure, or
  leaves the closure alone and shortens the stack.\<close>

lemma closure_loop_total: "All closure_loop_dom"
proof (relation "inv_image (less_than <*lex*> less_than)
          (\<lambda>(ts, c, st). (card (set (map to_st ts) - set c), length st))")
  show "wf (inv_image (less_than <*lex*> less_than)
          (\<lambda>(ts, c, st). (card (set (map to_st ts) - set c), length st)))"
    by (intro wf_inv_image wf_lex_prod wf_less_than)
next
  fix ts :: "transition list" and closure current stack
  obtain new where e: "expand (epsilonMoves ts current) (closure, stack) = (closure @ new, rev new @ stack)"
    and n: "set new = set (epsilonMoves ts current) - set closure"
    using expand_shape by blast
  have sub: "set new \<subseteq> set (map to_st ts) - set closure"
    using n by (auto simp: epsilonMoves_def)
  show "((ts, expand (epsilonMoves ts current) (closure, stack)), ts, closure, current # stack)
        \<in> inv_image (less_than <*lex*> less_than)
          (\<lambda>(ts, c, st). (card (set (map to_st ts) - set c), length st))"
  proof (cases "new = []")
    case True
    with e show ?thesis by simp
  next
    case False
    then obtain x where x: "x \<in> set new" by (cases new) auto
    have "set (map to_st ts) - set (closure @ new) \<subset> set (map to_st ts) - set closure"
      using x sub by auto
    then have "card (set (map to_st ts) - set (closure @ new)) < card (set (map to_st ts) - set closure)"
      by (intro psubset_card_mono) auto
    with e show ?thesis by simp
  qed
qed

termination closure_loop
  using closure_loop_total by blast

declare closure_loop.simps [simp del]

section \<open>The closure loop computes the epsilon closure\<close>

lemma set_epsilonMoves: "set (epsilonMoves ts x) = eps_edges ts `` {x}"
  by (auto simp: epsilonMoves_def eps_edges_def isEpsilon_def)

lemma closure_loop_mono: "set c \<subseteq> set (closure_loop ts (c, st))"
proof (induction ts "(c, st)" arbitrary: c st rule: closure_loop.induct)
  case (1 ts closure)
  show ?case by (simp add: closure_loop.simps)
next
  case (2 ts closure current stack)
  obtain new where e: "expand (epsilonMoves ts current) (closure, stack) = (closure @ new, rev new @ stack)"
    using expand_shape by blast
  from 2[OF e] e show ?case by (simp add: closure_loop.simps)
qed


text \<open>Nothing enters the closure that is not reachable from a state on the stack.\<close>

lemma closure_loop_sound:
  "set (closure_loop ts (c, st)) \<subseteq> set c \<union> (eps_edges ts)\<^sup>* `` set st"
proof (induction ts "(c, st)" arbitrary: c st rule: closure_loop.induct)
  case (1 ts closure)
  show ?case by (simp add: closure_loop.simps)
next
  case (2 ts closure current stack)
  obtain new where e: "expand (epsilonMoves ts current) (closure, stack) = (closure @ new, rev new @ stack)"
    and n: "set new = set (epsilonMoves ts current) - set closure"
    using expand_shape by blast
  have new: "set new \<subseteq> eps_edges ts `` {current}"
    using n by (auto simp: set_epsilonMoves)
  have "set (closure_loop ts (closure, current # stack))
        \<subseteq> set (closure @ new) \<union> (eps_edges ts)\<^sup>* `` set (rev new @ stack)"
    using 2[OF e] e by (simp add: closure_loop.simps)
  also have "\<dots> \<subseteq> set closure \<union> (eps_edges ts)\<^sup>* `` set (current # stack)"
  proof -
    have a: "set new \<subseteq> (eps_edges ts)\<^sup>* `` {current}" using new by auto
    have b: "(eps_edges ts)\<^sup>* `` set new \<subseteq> (eps_edges ts)\<^sup>* `` {current}"
      using new by (auto intro: converse_rtrancl_into_rtrancl)
    show ?thesis using a b by auto
  qed
  finally show ?case .
qed

text \<open>The loop invariant: the stack is part of the closure, and a member of the closure
  that is no longer on the stack has all its epsilon successors in the closure. When the
  stack is empty the closure is therefore closed under epsilon edges.\<close>

lemma closure_loop_closed:
  assumes "set st \<subseteq> set c"
    and "\<forall>x\<in>set c - set st. eps_edges ts `` {x} \<subseteq> set c"
  shows "eps_edges ts `` set (closure_loop ts (c, st)) \<subseteq> set (closure_loop ts (c, st))"
  using assms
proof (induction ts "(c, st)" arbitrary: c st rule: closure_loop.induct)
  case (1 ts closure)
  then show ?case by (auto simp: closure_loop.simps)
next
  case (2 ts closure current stack)
  obtain new where e: "expand (epsilonMoves ts current) (closure, stack) = (closure @ new, rev new @ stack)"
    and n: "set new = set (epsilonMoves ts current) - set closure"
    using expand_shape by blast
  have i1: "set (rev new @ stack) \<subseteq> set (closure @ new)"
    using 2(2) by auto
  have i2: "\<forall>x\<in>set (closure @ new) - set (rev new @ stack). eps_edges ts `` {x} \<subseteq> set (closure @ new)"
  proof
    fix x assume x: "x \<in> set (closure @ new) - set (rev new @ stack)"
    show "eps_edges ts `` {x} \<subseteq> set (closure @ new)"
    proof (cases "x = current")
      case True
      then show ?thesis using n by (auto simp: set_epsilonMoves)
    next
      case False
      with x have "x \<in> set closure - set (current # stack)" by auto
      with 2(3) show ?thesis by auto
    qed
  qed
  from 2(1)[OF e i1 i2] e show ?case by (simp add: closure_loop.simps)
qed

lemma set_closure_loop_init: "set (closure_loop ts ([q], [q])) = eps_closure ts {q}"
proof
  show "set (closure_loop ts ([q], [q])) \<subseteq> eps_closure ts {q}"
    using closure_loop_sound[of ts "[q]" "[q]"] by (auto simp: eps_closure_def)
next
  let ?R = "set (closure_loop ts ([q], [q]))"
  have q: "q \<in> ?R" using closure_loop_mono[of "[q]" ts "[q]"] by simp
  have cl: "eps_edges ts `` ?R \<subseteq> ?R"
    by (rule closure_loop_closed) auto
  have "y \<in> ?R" if "(q, y) \<in> (eps_edges ts)\<^sup>*" for y
    using that by (induction rule: rtrancl_induct) (use q cl in auto)
  then show "eps_closure ts {q} \<subseteq> ?R" by (auto simp: eps_closure_def)
qed

lemma set_computeStateEpsilonClosure: "set (computeStateEpsilonClosure q ts) = eps_closure ts {q}"
  by (simp add: computeStateEpsilonClosure_def set_closure_loop_init)



section \<open>Closure map, sets and loops of the converter\<close>

text \<open>No assignment creates an own property \<^verbatim>\<open>__proto__\<close>; so a lookup after assignments
  finds the array assigned last under its key, whatever the key.\<close>

lemma set_prop_get:
  assumes "own_props m PROTO = None"
  shows "get_prop (set_prop m k v) q = (if q = k then Some v else get_prop m q)"
    and "own_props (set_prop m k v) PROTO = None"
  using assms by (auto simp: set_prop_def get_prop_def split: option.splits)

lemma set_prop_own:
  "own_props (set_prop m k v) q = (if q = k \<and> k \<noteq> PROTO then Some v else own_props m q)"
  by (simp add: set_prop_def)

lemma fold_set_prop:
  assumes "own_props m0 PROTO = None"
  shows "get_prop (fold (\<lambda>state m. set_prop m state (f state)) xs m0) q
           = (if q \<in> set xs then Some (f q) else get_prop m0 q)"
    and "own_props (fold (\<lambda>state m. set_prop m state (f state)) xs m0) PROTO = None"
  using assms by (induction xs arbitrary: m0) (simp_all add: set_prop_get)

lemma fold_set_prop_own:
  "own_props (fold (\<lambda>state m. set_prop m state (f state)) xs m0) q
     = (if q \<in> set xs \<and> q \<noteq> PROTO then Some (f q) else own_props m0 q)"
  by (induction xs arbitrary: m0) (auto simp: set_prop_own)

lemma computeAllEpsilonClosures_apply:
  "get_prop (computeAllEpsilonClosures e) q =
     (if q \<in> set (states e) then Some (computeStateEpsilonClosure q (transitions e)) else None)"
  by (simp add: computeAllEpsilonClosures_def fold_set_prop empty_object_def)
     (simp add: get_prop_def)

lemma computeAllEpsilonClosures_own:
  "own_props (computeAllEpsilonClosures e) q =
     (if q \<in> set (states e) \<and> q \<noteq> PROTO
      then Some (computeStateEpsilonClosure q (transitions e)) else None)"
  by (simp add: computeAllEpsilonClosures_def fold_set_prop_own empty_object_def)

lemma for_each_guarded:
  assumes "\<And>x acc. x \<in> set xs \<Longrightarrow> body x acc = (if ok x then Inr (g x acc) else Inl TypeError)"
  shows "for_each body xs acc = (if list_all ok xs then Inr (fold g xs acc) else Inl TypeError)"
  using assms
proof (induction xs arbitrary: acc)
  case Nil
  show ?case by simp
next
  case (Cons x xs)
  have "body x acc = (if ok x then Inr (g x acc) else Inl TypeError)"
    using Cons.prems by simp
  moreover have "for_each body xs acc' = (if list_all ok xs then Inr (fold g xs acc') else Inl TypeError)" for acc'
    using Cons.IH Cons.prems by simp
  ultimately show ?case by simp
qed

lemma set_set_add: "set (set_add s x) = insert x (set s)"
  by (auto simp: set_add_def)

lemma set_fold_set_add: "set (fold (\<lambda>t r. set_add r (f t)) xs r0) = set r0 \<union> f ` set xs"
  by (induction xs arbitrary: r0) (auto simp: set_set_add)

lemma set_fold_reached:
  "set (fold (\<lambda>p reached. fold (\<lambda>t r. set_add r (to_st t))
               (filter (\<lambda>t. from_st t = p \<and> symbol t = a) ts) reached) ps r0)
   = set r0 \<union> symbol_step ts (set ps) a"
  by (induction ps arbitrary: r0) (auto simp: set_fold_set_add symbol_step_def)

lemma set_reachedAfterSymbol: "set (reachedAfterSymbol ts qClosure a) = symbol_step ts (set qClosure) a"
  by (simp add: reachedAfterSymbol_def set_fold_reached)

lemma set_fold_closures:
  "set (fold (\<lambda>s acc. fold (\<lambda>c acc'. set_add acc' c) (cl s) acc) reached r0)
   = set r0 \<union> (\<Union>s\<in>set reached. set (cl s))"
  by (induction reached arbitrary: r0) (auto simp: set_fold_set_add)

lemma finalReached_eq:
  "finalReached cl reached =
     (if list_all (\<lambda>s. cl s \<noteq> None) reached
      then Inr (fold (\<lambda>s acc. fold (\<lambda>c acc'. set_add acc' c) (the (cl s)) acc) reached [])
      else Inl TypeError)"
  unfolding finalReached_def
  by (rule for_each_guarded) (auto split: option.splits)

lemma find_None_iff_notin:
  "List.find (\<lambda>t. from_st t = q \<and> to_st t = target \<and> symbol t = a) nt = None
   \<longleftrightarrow> \<lparr>from_st = q, to_st = target, symbol = a\<rparr> \<notin> set nt"
proof -
  have r: "x = \<lparr>from_st = from_st x, to_st = to_st x, symbol = symbol x\<rparr>" for x :: transition
    by simp
  show ?thesis
    unfolding find_None_iff
  proof
    assume h: "\<nexists>x. x \<in> set nt \<and> from_st x = q \<and> to_st x = target \<and> symbol x = a"
    show "\<lparr>from_st = q, to_st = target, symbol = a\<rparr> \<notin> set nt"
    proof
      assume "\<lparr>from_st = q, to_st = target, symbol = a\<rparr> \<in> set nt"
      then have "\<exists>x. x \<in> set nt \<and> from_st x = q \<and> to_st x = target \<and> symbol x = a"
        by (intro exI[of _ "\<lparr>from_st = q, to_st = target, symbol = a\<rparr>"]) simp
      with h show False by blast
    qed
  next
    assume h: "\<lparr>from_st = q, to_st = target, symbol = a\<rparr> \<notin> set nt"
    show "\<nexists>x. x \<in> set nt \<and> from_st x = q \<and> to_st x = target \<and> symbol x = a"
    proof
      assume "\<exists>x. x \<in> set nt \<and> from_st x = q \<and> to_st x = target \<and> symbol x = a"
      then obtain x where x: "x \<in> set nt" "from_st x = q" "to_st x = target" "symbol x = a"
        by blast
      from r[of x] x have "x = \<lparr>from_st = q, to_st = target, symbol = a\<rparr>" by simp
      with x(1) h show False by simp
    qed
  qed
qed

lemma set_pushTransitions:
  "set (pushTransitions q a targets nt) = set nt \<union> (\<lambda>t. \<lparr>from_st = q, to_st = t, symbol = a\<rparr>) ` set targets"
  unfolding pushTransitions_def
  by (induction targets arbitrary: nt) (auto simp: find_None_iff_notin)

lemma distinct_pushTransitions:
  "distinct nt \<Longrightarrow> distinct (pushTransitions q a targets nt)"
  unfolding pushTransitions_def
  by (induction targets arbitrary: nt) (auto simp: find_None_iff_notin)

lemma for_each_union:
  assumes "\<And>x acc. x \<in> set xs \<Longrightarrow> distinct acc \<Longrightarrow>
             \<exists>acc'. body x acc = Inr acc' \<and> set acc' = set acc \<union> F x \<and> distinct acc'"
    and "distinct acc"
  shows "\<exists>acc'. for_each body xs acc = Inr acc' \<and> set acc' = set acc \<union> (\<Union>x\<in>set xs. F x)
           \<and> distinct acc'"
  using assms
proof (induction xs arbitrary: acc)
  case Nil
  then show ?case by simp
next
  case (Cons x xs)
  from Cons.prems(1)[of x acc] Cons.prems(2) obtain acc1 where
    1: "body x acc = Inr acc1" "set acc1 = set acc \<union> F x" "distinct acc1" by auto
  from Cons.IH[of acc1] Cons.prems(1) 1(3) obtain acc2 where
    2: "for_each body xs acc1 = Inr acc2" "set acc2 = set acc1 \<union> (\<Union>x\<in>set xs. F x)" "distinct acc2"
    by auto
  from 1 2 show ?case by auto
qed

lemma for_each_fails:
  "x \<in> set xs \<Longrightarrow> (\<And>acc. body x acc = Inl TypeError) \<Longrightarrow> for_each body xs acc = Inl TypeError"
proof (induction xs arbitrary: acc)
  case Nil
  then show ?case by simp
next
  case (Cons y ys)
  show ?case
  proof (cases "body y acc")
    case (Inl e)
    then show ?thesis by (cases e) simp
  next
    case (Inr acc')
    with Cons.prems have "x \<in> set ys" by auto
    with Cons.IH Cons.prems(2) Inr show ?thesis by simp
  qed
qed

lemma finalReached_defined:
  assumes "set reached \<subseteq> set (states e)"
  shows "\<exists>targets. finalReached (get_prop (computeAllEpsilonClosures e)) reached = Inr targets
           \<and> set targets = eps_closure (transitions e) (set reached)"
proof -
  let ?cl = "get_prop (computeAllEpsilonClosures e)"
  have all: "list_all (\<lambda>s. ?cl s \<noteq> None) reached"
    using assms by (auto simp: list_all_iff computeAllEpsilonClosures_apply)
  have "(\<Union>s\<in>set reached. set (the (?cl s))) = eps_closure (transitions e) (set reached)"
    using assms
    by (auto simp: computeAllEpsilonClosures_apply set_computeStateEpsilonClosure eps_closure_def subset_iff)
  then show ?thesis
    using all by (simp add: finalReached_eq set_fold_closures)
qed

lemma finalReached_undefined:
  assumes "\<not> set reached \<subseteq> set (states e)"
  shows "finalReached (get_prop (computeAllEpsilonClosures e)) reached = Inl TypeError"
proof -
  have "\<not> list_all (\<lambda>s. get_prop (computeAllEpsilonClosures e) s \<noteq> None) reached"
    using assms by (auto simp: list_all_iff computeAllEpsilonClosures_apply)
  then show ?thesis by (simp add: finalReached_eq)
qed

lemma projectPair_defined:
  assumes "q \<in> set (states e)"
    and "symbol_step (transitions e) (eps_closure (transitions e) {q}) a \<subseteq> set (states e)"
  shows "\<exists>nt'. projectPair e (get_prop (computeAllEpsilonClosures e)) q a nt = Inr nt'
           \<and> set nt' = set nt \<union> (\<lambda>t. \<lparr>from_st = q, to_st = t, symbol = a\<rparr>) `
                 eps_closure (transitions e) (symbol_step (transitions e) (eps_closure (transitions e) {q}) a)
           \<and> (distinct nt \<longrightarrow> distinct nt')"
proof -
  let ?ts = "transitions e"
  let ?reached = "reachedAfterSymbol ?ts (computeStateEpsilonClosure q ?ts) a"
  have r: "set ?reached = symbol_step ?ts (eps_closure ?ts {q}) a"
    by (simp add: set_reachedAfterSymbol set_computeStateEpsilonClosure)
  with assms(2) have "set ?reached \<subseteq> set (states e)" by simp
  from finalReached_defined[OF this] obtain targets where
    t: "finalReached (get_prop (computeAllEpsilonClosures e)) ?reached = Inr targets"
    "set targets = eps_closure ?ts (set ?reached)" by blast
  have "projectPair e (get_prop (computeAllEpsilonClosures e)) q a nt = Inr (pushTransitions q a targets nt)"
    using assms(1) t(1) by (simp add: projectPair_def computeAllEpsilonClosures_apply)
  then show ?thesis
    using t(2) r by (simp add: set_pushTransitions distinct_pushTransitions)
qed

lemma projectPair_undefined:
  assumes "q \<in> set (states e)"
    and "\<not> symbol_step (transitions e) (eps_closure (transitions e) {q}) a \<subseteq> set (states e)"
  shows "projectPair e (get_prop (computeAllEpsilonClosures e)) q a nt = Inl TypeError"
proof -
  let ?ts = "transitions e"
  let ?reached = "reachedAfterSymbol ?ts (computeStateEpsilonClosure q ?ts) a"
  have r: "set ?reached = symbol_step ?ts (eps_closure ?ts {q}) a"
    by (simp add: set_reachedAfterSymbol set_computeStateEpsilonClosure)
  with assms(2) have "\<not> set ?reached \<subseteq> set (states e)" by simp
  from finalReached_undefined[OF this] show ?thesis
    using assms(1) by (simp add: projectPair_def computeAllEpsilonClosures_apply)
qed

section \<open>What the converter returns, and when it raises\<close>

lemma projectTransitions_defined:
  assumes "steps_in_states e"
  shows "\<exists>nt. projectTransitions e (get_prop (computeAllEpsilonClosures e)) = Inr nt
           \<and> set nt = (\<Union>q\<in>set (states e). \<Union>a\<in>set (alphabetWithoutEpsilon e).
                          (\<lambda>t. \<lparr>from_st = q, to_st = t, symbol = a\<rparr>) ` projected (transitions e) q a)
           \<and> distinct nt"
proof -
  let ?cl = "get_prop (computeAllEpsilonClosures e)"
  let ?F = "\<lambda>q a. (\<lambda>t. \<lparr>from_st = q, to_st = t, symbol = a\<rparr>) ` projected (transitions e) q a"
  have inner: "\<exists>nt'. for_each (projectPair e ?cl q) (alphabetWithoutEpsilon e) nt = Inr nt'
                 \<and> set nt' = set nt \<union> (\<Union>a\<in>set (alphabetWithoutEpsilon e). ?F q a) \<and> distinct nt'"
    if q: "q \<in> set (states e)" and d: "distinct nt" for q nt
  proof (rule for_each_union[OF _ d])
    fix a and acc :: "transition list"
    assume a: "a \<in> set (alphabetWithoutEpsilon e)" and "distinct acc"
    with assms q have "symbol_step (transitions e) (eps_closure (transitions e) {q}) a \<subseteq> set (states e)"
      by (simp add: steps_in_states_def)
    from projectPair_defined[OF q this, of acc] \<open>distinct acc\<close>
    show "\<exists>acc'. projectPair e ?cl q a acc = Inr acc' \<and> set acc' = set acc \<union> ?F q a \<and> distinct acc'"
      by (auto simp: projected_def)
  qed
  have "\<exists>nt. for_each (\<lambda>q. for_each (projectPair e ?cl q) (alphabetWithoutEpsilon e)) (states e) [] = Inr nt
          \<and> set nt = set [] \<union> (\<Union>q\<in>set (states e). \<Union>a\<in>set (alphabetWithoutEpsilon e). ?F q a)
          \<and> distinct nt"
    by (rule for_each_union) (use inner in auto)
  then show ?thesis by (simp add: projectTransitions_def)
qed

lemma projectTransitions_undefined:
  assumes "\<not> steps_in_states e"
  shows "projectTransitions e (get_prop (computeAllEpsilonClosures e)) = Inl TypeError"
proof -
  from assms obtain q a where q: "q \<in> set (states e)" and a: "a \<in> set (alphabetWithoutEpsilon e)"
    and n: "\<not> symbol_step (transitions e) (eps_closure (transitions e) {q}) a \<subseteq> set (states e)"
    unfolding steps_in_states_def by blast
  have "for_each (projectPair e (get_prop (computeAllEpsilonClosures e)) q) (alphabetWithoutEpsilon e) nt = Inl TypeError" for nt
    using a projectPair_undefined[OF q n] by (rule for_each_fails)
  with q show ?thesis
    unfolding projectTransitions_def by (rule for_each_fails)
qed

lemma fold_keep: "fold (\<lambda>q kept. if P q then kept @ [q] else kept) xs acc = acc @ filter P xs"
  by (induction xs arbitrary: acc) auto

lemma selectFinalStates_eq:
  "selectFinalStates e (get_prop (computeAllEpsilonClosures e)) =
     Inr (filter (\<lambda>q. list_ex (\<lambda>s. s \<in> set (finalStates e))
                         (computeStateEpsilonClosure q (transitions e))) (states e))"
proof -
  let ?cl = "get_prop (computeAllEpsilonClosures e)"
  let ?P = "\<lambda>q. list_ex (\<lambda>s. s \<in> set (finalStates e)) (computeStateEpsilonClosure q (transitions e))"
  have "selectFinalStates e ?cl =
        (if list_all (\<lambda>q. ?cl q \<noteq> None) (states e)
         then Inr (fold (\<lambda>q kept. if ?P q then kept @ [q] else kept) (states e) [])
         else Inl TypeError)"
    unfolding selectFinalStates_def
    by (rule for_each_guarded) (auto simp: computeAllEpsilonClosures_apply)
  moreover have "list_all (\<lambda>q. ?cl q \<noteq> None) (states e)"
    by (simp add: list_all_iff computeAllEpsilonClosures_apply)
  ultimately show ?thesis by (simp add: fold_keep)
qed

lemma set_selected:
  "set (filter (\<lambda>q. list_ex (\<lambda>s. s \<in> set (finalStates e))
                         (computeStateEpsilonClosure q (transitions e))) (states e))
   = {q \<in> set (states e). eps_closure (transitions e) {q} \<inter> set (finalStates e) \<noteq> {}}"
  by (auto simp: list_ex_iff set_computeStateEpsilonClosure)

lemma convert_defined:
  assumes "steps_in_states e"
  shows "\<exists>nt. convertENFAToNFA e =
           Inr \<lparr>nfa = \<lparr>states = states e, alphabet = alphabetWithoutEpsilon e, transitions = nt,
                       initialState = initialState e,
                       finalStates = filter (\<lambda>q. list_ex (\<lambda>s. s \<in> set (finalStates e))
                           (computeStateEpsilonClosure q (transitions e))) (states e)\<rparr>,
                 closures = computeAllEpsilonClosures e\<rparr>
           \<and> set nt = (\<Union>q\<in>set (states e). \<Union>a\<in>set (alphabetWithoutEpsilon e).
                          (\<lambda>t. \<lparr>from_st = q, to_st = t, symbol = a\<rparr>) ` projected (transitions e) q a)
           \<and> distinct nt"
proof -
  from projectTransitions_defined[OF assms] obtain nt where
    "projectTransitions e (get_prop (computeAllEpsilonClosures e)) = Inr nt"
    "set nt = (\<Union>q\<in>set (states e). \<Union>a\<in>set (alphabetWithoutEpsilon e).
                          (\<lambda>t. \<lparr>from_st = q, to_st = t, symbol = a\<rparr>) ` projected (transitions e) q a)"
    "distinct nt" by blast
  then show ?thesis
    by (simp add: convertENFAToNFA_def selectFinalStates_eq)
qed

lemma convert_undefined:
  "\<not> steps_in_states e \<Longrightarrow> convertENFAToNFA e = Inl TypeError"
  by (simp add: convertENFAToNFA_def projectTransitions_undefined)

lemma convert_Inr_iff: "(\<exists>r. convertENFAToNFA e = Inr r) \<longleftrightarrow> steps_in_states e"
proof (cases "steps_in_states e")
  case True
  with convert_defined[of e] show ?thesis by blast
next
  case False
  with convert_undefined[of e] show ?thesis by simp
qed

text \<open>The equations that evaluate the converter on a concrete automaton.\<close>

lemmas eval_defs = convertENFAToNFA_def computeAllEpsilonClosures_def computeStateEpsilonClosure_def
  closure_loop.simps epsilonMoves_def EPSILON_def projectTransitions_def projectPair_def
  alphabetWithoutEpsilon_def reachedAfterSymbol_def finalReached_def pushTransitions_def
  selectFinalStates_def set_add_def set_prop_def get_prop_def empty_object_def PROTO_def

lemma convert_INITIAL_ENFA: "convertENFAToNFA INITIAL_ENFA = Inr INITIAL_RESULT"
  by (simp add: INITIAL_ENFA_def INITIAL_RESULT_def eval_defs)

lemma convert_InrD:
  assumes "convertENFAToNFA e = Inr r"
  shows "steps_in_states e"
    and "states (nfa r) = states e"
    and "alphabet (nfa r) = alphabetWithoutEpsilon e"
    and "initialState (nfa r) = initialState e"
    and "finalStates (nfa r) = filter (\<lambda>q. list_ex (\<lambda>s. s \<in> set (finalStates e))
                           (computeStateEpsilonClosure q (transitions e))) (states e)"
    and "closures r = computeAllEpsilonClosures e"
    and "set (transitions (nfa r)) = (\<Union>q\<in>set (states e). \<Union>a\<in>set (alphabetWithoutEpsilon e).
                          (\<lambda>t. \<lparr>from_st = q, to_st = t, symbol = a\<rparr>) ` projected (transitions e) q a)"
    and "distinct (transitions (nfa r))"
proof -
  show s: "steps_in_states e"
    using assms convert_undefined[of e] by (cases "steps_in_states e") auto
  from convert_defined[OF s] assms obtain nt where
    r: "r = \<lparr>nfa = \<lparr>states = states e, alphabet = alphabetWithoutEpsilon e, transitions = nt,
                       initialState = initialState e,
                       finalStates = filter (\<lambda>q. list_ex (\<lambda>s. s \<in> set (finalStates e))
                           (computeStateEpsilonClosure q (transitions e))) (states e)\<rparr>,
                 closures = computeAllEpsilonClosures e\<rparr>"
    and nt: "set nt = (\<Union>q\<in>set (states e). \<Union>a\<in>set (alphabetWithoutEpsilon e).
                          (\<lambda>t. \<lparr>from_st = q, to_st = t, symbol = a\<rparr>) ` projected (transitions e) q a)"
       "distinct nt"
    by auto
  show "states (nfa r) = states e" "alphabet (nfa r) = alphabetWithoutEpsilon e"
    "initialState (nfa r) = initialState e" "closures r = computeAllEpsilonClosures e"
    "finalStates (nfa r) = filter (\<lambda>q. list_ex (\<lambda>s. s \<in> set (finalStates e))
                           (computeStateEpsilonClosure q (transitions e))) (states e)"
    by (simp_all add: r)
  show "set (transitions (nfa r)) = (\<Union>q\<in>set (states e). \<Union>a\<in>set (alphabetWithoutEpsilon e).
                          (\<lambda>t. \<lparr>from_st = q, to_st = t, symbol = a\<rparr>) ` projected (transitions e) q a)"
    "distinct (transitions (nfa r))"
    using nt by (simp_all add: r)
qed


lemma set_selected_finals:
  assumes "convertENFAToNFA e = Inr r"
  shows "set (finalStates (nfa r))
         = {q \<in> set (states e). eps_closure (transitions e) {q} \<inter> set (finalStates e) \<noteq> {}}"
  unfolding convert_InrD(5)[OF assms] by (rule set_selected)

lemma eps_closure_refl: "q \<in> eps_closure ts {q}"
  by (simp add: eps_closure_def)

lemma closure_no_edges:
  assumes "eps_edges ts `` {q} = {}"
  shows "computeStateEpsilonClosure q ts = [q]"
proof -
  have "set (epsilonMoves ts q) = {}" using assms by (simp add: set_epsilonMoves)
  then have "epsilonMoves ts q = []" by simp
  then show ?thesis by (simp add: computeStateEpsilonClosure_def closure_loop.simps)
qed

lemma eps_closure_step:
  "r \<in> eps_closure ts S \<Longrightarrow> (r, s) \<in> eps_edges ts \<Longrightarrow> s \<in> eps_closure ts S"
  by (auto simp: eps_closure_def intro: rtrancl_into_rtrancl)

lemma eps_edgesI:
  "t \<in> set ts \<Longrightarrow> isEpsilon (symbol t) \<Longrightarrow> (from_st t, to_st t) \<in> eps_edges ts"
  by (auto simp: eps_edges_def)



lemma endpoints_steps_in_states:
  assumes "endpoints_in_states e"
  shows "steps_in_states e"
  using assms
  by (auto simp: endpoints_in_states_def steps_in_states_def symbol_step_def list_all_iff)

lemma no_eps_edges:
  assumes "no_epsilon_transitions e"
  shows "eps_edges (transitions e) = {}"
  using assms by (auto simp: no_epsilon_transitions_def eps_edges_def list_all_iff)

lemma no_eps_closure:
  assumes "no_epsilon_transitions e"
  shows "eps_closure (transitions e) S = S"
  by (simp add: eps_closure_def no_eps_edges[OF assms])

lemma transition_surj:
  "\<lparr>from_st = from_st t, to_st = to_st t, symbol = symbol t\<rparr> = (t :: transition)"
  by simp

lemma steps_in_states_iff:
  "steps_in_states e \<longleftrightarrow>
     \<not> (\<exists>q\<in>set (states e). \<exists>a\<in>set (alphabetWithoutEpsilon e). \<exists>t\<in>set (transitions e).
          from_st t \<in> eps_closure (transitions e) {q} \<and> symbol t = a
          \<and> to_st t \<notin> set (states e))"
  by (auto simp: steps_in_states_def symbol_step_def)

section \<open>The converter writes to new objects only\<close>

lemma unchanged_refl: "n \<le> next_free h \<Longrightarrow> unchanged_except A n h h"
  by (simp add: unchanged_except_def)

lemma unchanged_alloc:
  "unchanged_except A n h0 h \<Longrightarrow> alloc v h = (a, h') \<Longrightarrow> unchanged_except A n h0 h' \<and> n \<le> a"
  by (auto simp: unchanged_except_def alloc_def)

lemma unchanged_put:
  "unchanged_except A n h0 h \<Longrightarrow> n \<le> a \<or> a \<in> A \<Longrightarrow> unchanged_except A n h0 (put a v h)"
  by (auto simp: unchanged_except_def put_def)

lemma unchanged_add_at:
  "unchanged_except A n h0 h \<Longrightarrow> n \<le> a \<or> a \<in> A \<Longrightarrow> unchanged_except A n h0 (add_at a x h)"
  by (simp add: add_at_def unchanged_put)

lemma unchanged_push_at:
  "unchanged_except A n h0 h \<Longrightarrow> n \<le> a \<or> a \<in> A \<Longrightarrow> unchanged_except A n h0 (push_at a x h)"
  by (simp add: push_at_def unchanged_put)

lemma unchanged_fold:
  assumes "\<And>x h. unchanged_except A n h0 h \<Longrightarrow> unchanged_except A n h0 (f x h)"
    and "unchanged_except A n h0 h"
  shows "unchanged_except A n h0 (fold f xs h)"
  using assms(2) by (induction xs arbitrary: h) (auto intro: assms(1))

lemma unchanged_for_each_at:
  assumes "\<And>x h. unchanged_except A n h0 h \<Longrightarrow> unchanged_except A n h0 (fst (body x h))"
    and "unchanged_except A n h0 h"
  shows "unchanged_except A n h0 (fst (for_each_at body xs h))"
  using assms(2)
proof (induction xs arbitrary: h)
  case Nil
  then show ?case by simp
next
  case (Cons x xs)
  from assms(1)[OF Cons.prems, of x] have b: "unchanged_except A n h0 (fst (body x h))" .
  show ?case
  proof (cases "body x h")
    case (Pair h' e)
    with b have h': "unchanged_except A n h0 h'" by simp
    show ?thesis
    proof (cases e)
      case None
      with Pair Cons.IH[OF h'] show ?thesis by simp
    next
      case (Some err)
      with Pair h' show ?thesis by simp
    qed
  qed
qed

lemma unchanged_closure_loop_at_aux:
  assumes "closure_loop_at ts closure stack h = Some h'"
  shows "n \<le> closure \<and> n \<le> stack \<and> unchanged_except A n h0 h \<longrightarrow> unchanged_except A n h0 h'"
proof (rule closure_loop_at.raw_induct
    [where P = "\<lambda>ts closure stack h h'.
                  n \<le> closure \<and> n \<le> stack \<and> unchanged_except A n h0 h \<longrightarrow> unchanged_except A n h0 h'",
      OF _ assms])
  fix f :: "nat \<Rightarrow> nat \<Rightarrow> nat \<Rightarrow> store \<Rightarrow> store option"
  fix ts closure stack h h'
  assume IH: "\<And>ts closure stack h y. f ts closure stack h = Some y \<Longrightarrow>
                n \<le> closure \<and> n \<le> stack \<and> unchanged_except A n h0 h \<longrightarrow> unchanged_except A n h0 y"
  let ?h1 = "put stack (Strs (butlast (get_strs h stack))) h"
  let ?h2 = "fold (\<lambda>next h'. if next \<notin> set (get_strs h' closure)
                            then push_at stack next (add_at closure next h')
                            else h')
             (epsilonMoves (get_trans ?h1 ts) (last (get_strs h stack))) ?h1"
  assume eq: "(if get_strs h stack = [] then Some h else f ts closure stack ?h2) = Some h'"
  show "n \<le> closure \<and> n \<le> stack \<and> unchanged_except A n h0 h \<longrightarrow> unchanged_except A n h0 h'"
  proof
    assume p: "n \<le> closure \<and> n \<le> stack \<and> unchanged_except A n h0 h"
    show "unchanged_except A n h0 h'"
    proof (cases "get_strs h stack = []")
      case True
      with eq p show ?thesis by simp
    next
      case False
      have a: "unchanged_except A n h0 ?h1"
        using p by (simp add: unchanged_put)
      have b: "unchanged_except A n h0 ?h2"
        by (rule unchanged_fold[OF _ a]) (use p in \<open>auto simp: unchanged_push_at unchanged_add_at\<close>)
      from eq False have "f ts closure stack ?h2 = Some h'" by simp
      from IH[OF this] p b show ?thesis by simp
    qed
  qed
qed

lemma unchanged_closure_loop_at:
  "closure_loop_at ts closure stack h = Some h' \<Longrightarrow>
     n \<le> closure \<Longrightarrow> n \<le> stack \<Longrightarrow> unchanged_except A n h0 h \<Longrightarrow> unchanged_except A n h0 h'"
  using unchanged_closure_loop_at_aux by blast

lemma unchanged_computeStateEpsilonClosure_at:
  assumes "computeStateEpsilonClosure_at state ts h = Some (arr, h')"
    and "unchanged_except A n h0 h"
  shows "unchanged_except A n h0 h' \<and> n \<le> arr"
proof -
  obtain closure h1 where a1: "alloc (Strs [state]) h = (closure, h1)" by fastforce
  obtain stack h2 where a2: "alloc (Strs [state]) h1 = (stack, h2)" by fastforce
  from unchanged_alloc[OF assms(2) a1] have u1: "unchanged_except A n h0 h1" "n \<le> closure" by auto
  from unchanged_alloc[OF u1(1) a2] have u2: "unchanged_except A n h0 h2" "n \<le> stack" by auto
  from assms(1) a1 a2 obtain h3 where l: "closure_loop_at ts closure stack h2 = Some h3"
    by (auto simp: computeStateEpsilonClosure_at_def split: option.splits)
  from unchanged_closure_loop_at[OF l u1(2) u2(2) u2(1)] have u3: "unchanged_except A n h0 h3" .
  obtain a h4 where a3: "alloc (Strs (get_strs h3 closure)) h3 = (a, h4)" by fastforce
  from unchanged_alloc[OF u3 a3] have u4: "unchanged_except A n h0 h4" "n \<le> a" by auto
  from assms(1) a1 a2 l a3 have "arr = a" "h' = put a (Strs (sort (get_strs h4 a))) h4"
    by (auto simp: computeStateEpsilonClosure_at_def)
  with u4 show ?thesis by (simp add: unchanged_put)
qed

lemma unchanged_closures_loop_at:
  assumes "closures_loop_at enfa m xs h = Some h'"
    and "unchanged_except A n h0 h" and "n \<le> m \<or> m \<in> A"
  shows "unchanged_except A n h0 h'"
  using assms
proof (induction xs arbitrary: h)
  case Nil
  then show ?case by simp
next
  case (Cons state rest)
  from Cons.prems(1) obtain arr h1 where
    c: "computeStateEpsilonClosure_at state (transitions_at (get_aut h enfa)) h = Some (arr, h1)"
    and r: "closures_loop_at enfa m rest (put m (Clos ((get_clos h1 m)(state \<mapsto> arr))) h1) = Some h'"
    by (auto split: option.splits)
  from unchanged_computeStateEpsilonClosure_at[OF c Cons.prems(2)]
  have "unchanged_except A n h0 h1" by simp
  then have "unchanged_except A n h0 (put m (Clos ((get_clos h1 m)(state \<mapsto> arr))) h1)"
    using Cons.prems(3) by (simp add: unchanged_put)
  from Cons.IH[OF r this Cons.prems(3)] show ?case .
qed

lemma unchanged_computeAllEpsilonClosures_at:
  assumes "computeAllEpsilonClosures_at enfa h = Some (m, h')"
    and "unchanged_except A n h0 h"
  shows "unchanged_except A n h0 h' \<and> n \<le> m"
proof -
  obtain m1 h1 where a: "alloc (Clos Map.empty) h = (m1, h1)" by fastforce
  from unchanged_alloc[OF assms(2) a] have u1: "unchanged_except A n h0 h1" "n \<le> m1" by auto
  from assms(1) a have m: "m = m1"
    and l: "closures_loop_at enfa m1 (get_strs h1 (states_at (get_aut h1 enfa))) h1 = Some h'"
    by (auto simp: computeAllEpsilonClosures_at_def split: option.splits)
  from unchanged_closures_loop_at[OF l u1(1) disjI1[OF u1(2)]] m u1(2) show ?thesis by simp
qed

lemma unchanged_projectPair_at:
  assumes "unchanged_except A n h0 h" and "n \<le> newTransitions \<or> newTransitions \<in> A"
  shows "unchanged_except A n h0 (fst (projectPair_at enfa closures' newTransitions q a h))"
proof -
  obtain reached h1 where a1: "alloc (Strs []) h = (reached, h1)" by fastforce
  from unchanged_alloc[OF assms(1) a1] have u1: "unchanged_except A n h0 h1" "n \<le> reached" by auto
  show ?thesis
  proof (cases "get_clos h1 closures' q")
    case None
    with a1 u1 show ?thesis by (simp add: projectPair_at_def)
  next
    case (Some qClosure)
    let ?h2 = "fold (\<lambda>p h'.
                        fold (\<lambda>t. add_at reached (to_st t))
                          (filter (\<lambda>t. from_st t = p \<and> symbol t = a)
                             (get_trans h' (transitions_at (get_aut h' enfa)))) h')
                        (get_strs h1 qClosure) h1"
    have u2: "unchanged_except A n h0 ?h2"
      by (intro unchanged_fold[OF _ u1(1)] unchanged_fold unchanged_add_at disjI1 u1(2))
    obtain final h3 where a2: "alloc (Strs []) ?h2 = (final, h3)" by fastforce
    from unchanged_alloc[OF u2 a2] have u3: "unchanged_except A n h0 h3" "n \<le> final" by auto
    let ?body = "\<lambda>s h'. case get_clos h' closures' s of
                                  None \<Rightarrow> (h', Some TypeError)
                                | Some cs \<Rightarrow> (fold (add_at final) (get_strs h' cs) h', None)"
    have u4: "unchanged_except A n h0 (fst (for_each_at ?body (get_strs h3 reached) h3))"
    proof (rule unchanged_for_each_at[OF _ u3(1)])
      fix s h'
      assume "unchanged_except A n h0 h'"
      then show "unchanged_except A n h0 (fst (?body s h'))"
        by (auto split: option.splits intro!: unchanged_fold unchanged_add_at disjI1[OF u3(2)])
    qed
    obtain h4 e where f: "for_each_at ?body (get_strs h3 reached) h3 = (h4, e)" by fastforce
    with u4 have u4': "unchanged_except A n h0 h4" by simp
    show ?thesis
    proof (cases e)
      case (Some err)
      with a1 \<open>get_clos h1 closures' q = Some qClosure\<close> a2 f u4' show ?thesis
        by (simp add: projectPair_at_def)
    next
      case None
      have "unchanged_except A n h0
              (fold (\<lambda>target h'.
                             if List.find (\<lambda>t. from_st t = q \<and> to_st t = target \<and> symbol t = a)
                                  (get_trans h' newTransitions) = None
                             then put newTransitions
                                    (Trans (get_trans h' newTransitions
                                            @ [\<lparr>from_st = q, to_st = target, symbol = a\<rparr>])) h'
                             else h')
                       (get_strs h4 final) h4)"
        by (rule unchanged_fold[OF _ u4']) (use assms(2) in \<open>auto intro!: unchanged_put\<close>)
      with None a1 \<open>get_clos h1 closures' q = Some qClosure\<close> a2 f show ?thesis
        by (simp add: projectPair_at_def)
    qed
  qed
qed

lemma unchanged_convertENFAToNFA_at:
  assumes "convertENFAToNFA_at enfa h = Some (h', res)"
  shows "unchanged_except {} (next_free h) h h'"
proof -
  let ?n = "next_free h"
  have u0: "unchanged_except {} ?n h h" by (simp add: unchanged_refl)
  from assms obtain cl h1 where c: "computeAllEpsilonClosures_at enfa h = Some (cl, h1)"
    by (auto simp: convertENFAToNFA_at_def split: option.splits)
  from unchanged_computeAllEpsilonClosures_at[OF c u0] have u1: "unchanged_except {} ?n h h1" by simp
  obtain nt h2 where a1: "alloc (Trans []) h1 = (nt, h2)" by fastforce
  from unchanged_alloc[OF u1 a1] have u2: "unchanged_except {} ?n h h2" "?n \<le> nt" by auto
  obtain al h3 where a2: "alloc (Strs (filter (\<lambda>a. a \<noteq> [] \<and> a \<noteq> EPSILON)
                                (get_strs h2 (alphabet_at (get_aut h2 enfa))))) h2 = (al, h3)"
    by fastforce
  from unchanged_alloc[OF u2(1) a2] have u3: "unchanged_except {} ?n h h3" by simp
  let ?loop = "for_each_at
                    (\<lambda>q h'. for_each_at (projectPair_at enfa cl nt q) (get_strs h' al) h')
                    (get_strs h3 (states_at (get_aut h3 enfa))) h3"
  have u4: "unchanged_except {} ?n h (fst ?loop)"
    by (intro unchanged_for_each_at[OF _ u3] unchanged_for_each_at unchanged_projectPair_at disjI1 u2(2))
  obtain h4 e where l: "?loop = (h4, e)" by fastforce
  with u4 have u4': "unchanged_except {} ?n h h4" by simp
  show ?thesis
  proof (cases e)
    case (Some err)
    with assms c a1 a2 l have "h' = h4" by (simp add: convertENFAToNFA_at_def)
    with u4' show ?thesis by simp
  next
    case None
    show ?thesis
    proof (cases "selectFinalStates_at enfa cl h4")
      case (Inl err)
      with assms c a1 a2 l None have "h' = h4" by (simp add: convertENFAToNFA_at_def)
      with u4' show ?thesis by simp
    next
      case (Inr kept)
      obtain nf h5 where a3: "alloc (Strs kept) h4 = (nf, h5)" by fastforce
      from unchanged_alloc[OF u4' a3] have u5: "unchanged_except {} ?n h h5" by simp
      obtain na h6 where a4: "alloc (Aut \<lparr>states_at = states_at (get_aut h5 enfa),
                                         alphabet_at = al,
                                         transitions_at = nt,
                                         initialState_of = initialState_of (get_aut h5 enfa),
                                         finalStates_at = nf\<rparr>) h5 = (na, h6)" by fastforce
      from unchanged_alloc[OF u5 a4] have u6: "unchanged_except {} ?n h h6" by simp
      from assms c a1 a2 l None Inr a3 a4 have "h' = h6" by (simp add: convertENFAToNFA_at_def)
      with u6 show ?thesis by simp
    qed
  qed
qed

section \<open>The store-level converter computes what the converter computes\<close>

lemma unchanged_reads:
  assumes "unchanged_except A n h h'" and "a < n" and "a \<notin> A"
  shows "get_strs h' a = get_strs h a" and "get_trans h' a = get_trans h a"
    and "get_clos h' a = get_clos h a" and "get_aut h' a = get_aut h a"
  using assms by (simp_all add: unchanged_except_def get_strs_def get_trans_def get_clos_def get_aut_def)

lemma unchanged_trans:
  "unchanged_except A n h0 h1 \<Longrightarrow> unchanged_except A n h1 h2 \<Longrightarrow> unchanged_except A n h0 h2"
  by (simp add: unchanged_except_def)

lemma unchanged_weaken:
  "unchanged_except A n h h' \<Longrightarrow> k \<le> n \<Longrightarrow> A \<subseteq> B \<Longrightarrow> unchanged_except B k h h'"
  unfolding unchanged_except_def
  by (metis (no_types, opaque_lifting) le_trans less_le_trans subset_iff)

lemma fold_rel:
  assumes "R h acc"
    and "\<And>x h acc. x \<in> set xs \<Longrightarrow> R h acc \<Longrightarrow> R (f x h) (g x acc)"
  shows "R (fold f xs h) (fold g xs acc)"
  using assms by (induction xs arbitrary: h acc) auto

text \<open>The inner loop of the closure computation, over the store and over the pair of
  closure and stack.\<close>

lemma expand_at:
  assumes "closure \<noteq> stack"
    and "cells h closure = Some (Strs c)" and "cells h stack = Some (Strs (rev st))"
    and "expand ms (c, st) = (c', st')"
  shows "\<exists>h'. fold (\<lambda>next h'. if next \<notin> set (get_strs h' closure)
                            then push_at stack next (add_at closure next h')
                            else h') ms h = h'
           \<and> cells h' closure = Some (Strs c') \<and> cells h' stack = Some (Strs (rev st'))
           \<and> next_free h' = next_free h
           \<and> (\<forall>a. a \<noteq> closure \<and> a \<noteq> stack \<longrightarrow> cells h' a = cells h a)"
  using assms(2-)
proof (induction ms arbitrary: h c st)
  case Nil
  then show ?case by simp
next
  case (Cons m ms)
  show ?case
  proof (cases "m \<in> set c")
    case True
    with Cons.prems have e: "expand ms (c, st) = (c', st')" by simp
    from Cons.IH[OF Cons.prems(1,2) e] True Cons.prems(1) show ?thesis
      by (simp add: get_strs_def)
  next
    case False
    let ?h1 = "push_at stack m (add_at closure m h)"
    from False Cons.prems have e: "expand ms (c @ [m], m # st) = (c', st')" by simp
    have 1: "cells ?h1 closure = Some (Strs (c @ [m]))"
      using assms(1) Cons.prems(1) False
      by (simp add: push_at_def add_at_def put_def get_strs_def set_add_def)
    have 2: "cells ?h1 stack = Some (Strs (rev (m # st)))"
      using assms(1) Cons.prems(2)
      by (simp add: push_at_def add_at_def put_def get_strs_def)
    have 3: "next_free ?h1 = next_free h"
      by (simp add: push_at_def add_at_def put_def)
    have 4: "\<forall>a. a \<noteq> closure \<and> a \<noteq> stack \<longrightarrow> cells ?h1 a = cells h a"
      by (simp add: push_at_def add_at_def put_def)
    from Cons.IH[OF 1 2 e] 3 4 False Cons.prems(1) show ?thesis
      by (simp add: get_strs_def)
  qed
qed

lemma closure_loop_at_refines:
  assumes "closure \<noteq> stack" and "ts \<noteq> closure" and "ts \<noteq> stack"
  shows "get_trans h ts = T \<Longrightarrow> cells h closure = Some (Strs c) \<Longrightarrow>
         cells h stack = Some (Strs (rev st)) \<Longrightarrow>
         \<exists>h'. closure_loop_at ts closure stack h = Some h'
           \<and> cells h' closure = Some (Strs (closure_loop T (c, st)))
           \<and> next_free h' = next_free h
           \<and> (\<forall>a. a \<noteq> closure \<and> a \<noteq> stack \<longrightarrow> cells h' a = cells h a)"
proof (induction T "(c, st)" arbitrary: c st h rule: closure_loop.induct)
  case (1 T c)
  then have "get_strs h stack = []" by (simp add: get_strs_def)
  then have "closure_loop_at ts closure stack h = Some h"
    by (subst closure_loop_at.simps) simp
  with 1 show ?case by (simp add: closure_loop.simps)
next
  case (2 T c current st)
  let ?h1 = "put stack (Strs (rev st)) h"
  have s: "get_strs h stack = rev st @ [current]"
    using 2(4) by (simp add: get_strs_def)
  have t1: "get_trans ?h1 ts = T"
    using 2(2) assms(3) by (simp add: get_trans_def put_def)
  have c1: "cells ?h1 closure = Some (Strs c)"
    using 2(3) assms(1) by (simp add: put_def)
  have s1: "cells ?h1 stack = Some (Strs (rev st))"
    by (simp add: put_def)
  obtain c' st' where e: "expand (epsilonMoves T current) (c, st) = (c', st')" by fastforce
  let ?h2 = "fold (\<lambda>next h'. if next \<notin> set (get_strs h' closure)
                            then push_at stack next (add_at closure next h')
                            else h') (epsilonMoves T current) ?h1"
  from expand_at[OF assms(1) c1 s1 e] have
    c2: "cells ?h2 closure = Some (Strs c')" and s2: "cells ?h2 stack = Some (Strs (rev st'))"
    and n2: "next_free ?h2 = next_free ?h1"
    and o2: "\<forall>a. a \<noteq> closure \<and> a \<noteq> stack \<longrightarrow> cells ?h2 a = cells ?h1 a"
    by auto
  have t2: "get_trans ?h2 ts = T"
    using t1 o2 assms(2,3) by (simp add: get_trans_def)
  from 2(1)[OF e t2 c2 s2] obtain h' where
    r: "closure_loop_at ts closure stack ?h2 = Some h'"
    "cells h' closure = Some (Strs (closure_loop T (c', st')))"
    "next_free h' = next_free ?h2"
    "\<forall>a. a \<noteq> closure \<and> a \<noteq> stack \<longrightarrow> cells h' a = cells ?h2 a" by blast
  have "closure_loop_at ts closure stack h = closure_loop_at ts closure stack ?h2"
    by (subst closure_loop_at.simps) (simp add: s t1)
  with r e o2 n2 show ?case
    by (simp add: closure_loop.simps put_def)
qed

lemma computeStateEpsilonClosure_at_refines:
  assumes "ts < next_free h"
  shows "\<exists>arr h'. computeStateEpsilonClosure_at state ts h = Some (arr, h')
           \<and> next_free h \<le> arr \<and> arr < next_free h'
           \<and> cells h' arr = Some (Strs (computeStateEpsilonClosure state (get_trans h ts)))
           \<and> unchanged_except {} (next_free h) h h'"
proof -
  let ?n = "next_free h"
  let ?h2 = "\<lparr>cells = (cells h)(?n \<mapsto> Strs [state], Suc ?n \<mapsto> Strs [state]), next_free = Suc (Suc ?n)\<rparr>"
  have t: "get_trans ?h2 ts = get_trans h ts"
    using assms by (simp add: get_trans_def)
  have "\<exists>h3. closure_loop_at ts ?n (Suc ?n) ?h2 = Some h3
           \<and> cells h3 ?n = Some (Strs (closure_loop (get_trans h ts) ([state], [state])))
           \<and> next_free h3 = next_free ?h2
           \<and> (\<forall>a. a \<noteq> ?n \<and> a \<noteq> Suc ?n \<longrightarrow> cells h3 a = cells ?h2 a)"
    by (rule closure_loop_at_refines[OF _ _ _ t]) (use assms in auto)
  then obtain h3 where l: "closure_loop_at ts ?n (Suc ?n) ?h2 = Some h3"
    and c3: "cells h3 ?n = Some (Strs (closure_loop (get_trans h ts) ([state], [state])))"
    and n3: "next_free h3 = Suc (Suc ?n)"
    and o3: "\<forall>a. a \<noteq> ?n \<and> a \<noteq> Suc ?n \<longrightarrow> cells h3 a = cells ?h2 a"
    by auto
  let ?arr = "Suc (Suc ?n)"
  let ?h5 = "put ?arr (Strs (sort (get_strs (snd (alloc (Strs (get_strs h3 ?n)) h3)) ?arr)))
               (snd (alloc (Strs (get_strs h3 ?n)) h3))"
  have r: "computeStateEpsilonClosure_at state ts h = Some (?arr, ?h5)"
    using l n3 by (simp add: computeStateEpsilonClosure_at_def alloc_def)
  have c5: "cells ?h5 ?arr = Some (Strs (computeStateEpsilonClosure state (get_trans h ts)))"
    using c3 n3 by (simp add: put_def alloc_def get_strs_def computeStateEpsilonClosure_def)
  have n5: "next_free ?h5 = Suc ?arr"
    using n3 by (simp add: put_def alloc_def)
  have u: "unchanged_except {} ?n h ?h5"
    using o3 n3 by (simp add: unchanged_except_def put_def alloc_def)
  from r c5 n5 u show ?thesis by auto
qed

lemma unchanged_except_refl: "unchanged_except A (next_free h) h h"
  by (simp add: unchanged_except_def)

lemma closures_loop_at_refines:
  assumes "enfa < next_free hE" and "enfa \<noteq> m"
    and "transitions_at (get_aut hE enfa) < next_free hE"
    and "transitions_at (get_aut hE enfa) \<noteq> m"
    and "m < next_free hE"
    and "T = get_trans hE (transitions_at (get_aut hE enfa))"
  shows "unchanged_except {m} (next_free hE) hE h \<Longrightarrow> cells h m = Some (Clos mp) \<Longrightarrow>
         (\<forall>s a. mp s = Some a \<longrightarrow> a < next_free h \<and> a \<noteq> m
                  \<and> cells h a = Some (Strs (computeStateEpsilonClosure s T))) \<Longrightarrow>
         \<exists>h' mp'. closures_loop_at enfa m xs h = Some h'
           \<and> unchanged_except {m} (next_free hE) hE h'
           \<and> cells h' m = Some (Clos mp')
           \<and> (\<forall>s a. mp' s = Some a \<longrightarrow> a < next_free h' \<and> a \<noteq> m
                  \<and> cells h' a = Some (Strs (computeStateEpsilonClosure s T)))
           \<and> dom mp' = dom mp \<union> set xs"
proof (induction xs arbitrary: h mp)
  case Nil
  then show ?case by simp
next
  case (Cons state rest)
  let ?N = "next_free hE"
  let ?ts = "transitions_at (get_aut hE enfa)"
  have N: "?N \<le> next_free h" using Cons.prems(1) by (simp add: unchanged_except_def)
  have aut: "get_aut h enfa = get_aut hE enfa"
    using unchanged_reads(4)[OF Cons.prems(1) assms(1)] assms(2) by simp
  have tr: "get_trans h ?ts = T"
    using unchanged_reads(2)[OF Cons.prems(1) assms(3)] assms(4,6) by simp
  have "?ts < next_free h" using assms(3) N by simp
  from computeStateEpsilonClosure_at_refines[OF this, of state] obtain arr h1 where
    c: "computeStateEpsilonClosure_at state ?ts h = Some (arr, h1)"
    and a: "next_free h \<le> arr" "arr < next_free h1"
    and ca: "cells h1 arr = Some (Strs (computeStateEpsilonClosure state T))"
    and u1: "unchanged_except {} (next_free h) h h1"
    using tr by auto
  have n1: "next_free h \<le> next_free h1" using u1 by (simp add: unchanged_except_def)
  have same: "cells h1 b = cells h b" if "b < next_free h" for b
    using u1 that by (simp add: unchanged_except_def)
  have m: "m < next_free h" using assms(5) N by simp
  have gm: "get_clos h1 m = mp"
    using same[OF m] Cons.prems(2) by (simp add: get_clos_def)
  let ?h2 = "put m (Clos (mp(state \<mapsto> arr))) h1"
  have i1: "unchanged_except {m} ?N hE ?h2"
  proof -
    have "unchanged_except {m} ?N h h1"
      by (rule unchanged_weaken[OF u1 N]) simp
    from unchanged_trans[OF Cons.prems(1) this] show ?thesis
      by (rule unchanged_put) simp
  qed
  have i2: "cells ?h2 m = Some (Clos (mp(state \<mapsto> arr)))"
    by (simp add: put_def)
  have i3: "\<forall>s b. (mp(state \<mapsto> arr)) s = Some b \<longrightarrow> b < next_free ?h2 \<and> b \<noteq> m
                  \<and> cells ?h2 b = Some (Strs (computeStateEpsilonClosure s T))"
  proof (intro allI impI)
    fix s b assume sb: "(mp(state \<mapsto> arr)) s = Some b"
    show "b < next_free ?h2 \<and> b \<noteq> m \<and> cells ?h2 b = Some (Strs (computeStateEpsilonClosure s T))"
    proof (cases "s = state")
      case True
      with sb have "b = arr" by simp
      with a m ca True show ?thesis by (simp add: put_def)
    next
      case False
      with sb have "mp s = Some b" by simp
      with Cons.prems(3) have b: "b < next_free h" "b \<noteq> m"
        "cells h b = Some (Strs (computeStateEpsilonClosure s T))" by auto
      with same[OF b(1)] n1 show ?thesis by (simp add: put_def)
    qed
  qed
  from Cons.IH[OF i1 i2 i3] obtain h' mp' where
    r: "closures_loop_at enfa m rest ?h2 = Some h'"
    "unchanged_except {m} ?N hE h'" "cells h' m = Some (Clos mp')"
    "\<forall>s a. mp' s = Some a \<longrightarrow> a < next_free h' \<and> a \<noteq> m
                  \<and> cells h' a = Some (Strs (computeStateEpsilonClosure s T))"
    "dom mp' = dom (mp(state \<mapsto> arr)) \<union> set rest" by blast
  have "closures_loop_at enfa m (state # rest) h = Some h'"
    using c r(1) aut gm by simp
  with r show ?case by auto
qed

lemma computeAllEpsilonClosures_at_refines:
  assumes "allocated_automaton h enfa"
  shows "\<exists>m h'. computeAllEpsilonClosures_at enfa h = Some (m, h')
           \<and> unchanged_except {} (next_free h) h h'
           \<and> next_free h \<le> m \<and> m < next_free h'
           \<and> closures_at h' m = get_prop (computeAllEpsilonClosures (automaton_at h enfa))
           \<and> (\<forall>s a. get_clos h' m s = Some a \<longrightarrow> a < next_free h')"
proof -
  let ?m = "next_free h"
  let ?hE = "\<lparr>cells = (cells h)(?m \<mapsto> Clos Map.empty), next_free = Suc ?m\<rparr>"
  let ?T = "get_trans ?hE (transitions_at (get_aut ?hE enfa))"
  have al: "enfa < ?m" "states_at (get_aut h enfa) < ?m" "transitions_at (get_aut h enfa) < ?m"
    using assms by (simp_all add: allocated_automaton_def)
  have aut: "get_aut ?hE enfa = get_aut h enfa"
    using al(1) by (simp add: get_aut_def)
  have tr: "?T = get_trans h (transitions_at (get_aut h enfa))"
    using al(3) by (simp add: aut) (simp add: get_trans_def)
  have st: "get_strs ?hE (states_at (get_aut ?hE enfa)) = get_strs h (states_at (get_aut h enfa))"
    using al(2) by (simp add: aut) (simp add: get_strs_def)
  have "\<exists>h' mp'. closures_loop_at enfa ?m (get_strs ?hE (states_at (get_aut ?hE enfa))) ?hE = Some h'
           \<and> unchanged_except {?m} (next_free ?hE) ?hE h'
           \<and> cells h' ?m = Some (Clos mp')
           \<and> (\<forall>s a. mp' s = Some a \<longrightarrow> a < next_free h' \<and> a \<noteq> ?m
                  \<and> cells h' a = Some (Strs (computeStateEpsilonClosure s ?T)))
           \<and> dom mp' = dom (Map.empty :: jsstring \<rightharpoonup> nat)
                          \<union> set (get_strs ?hE (states_at (get_aut ?hE enfa)))"
  proof (rule closures_loop_at_refines[where T = ?T])
    show "enfa < next_free ?hE" "enfa \<noteq> ?m" using al(1) by simp_all
    show "transitions_at (get_aut ?hE enfa) < next_free ?hE" "transitions_at (get_aut ?hE enfa) \<noteq> ?m"
      using al(3) by (simp_all add: aut)
    show "?m < next_free ?hE" by simp
    show "unchanged_except {?m} (next_free ?hE) ?hE ?hE" by (rule unchanged_except_refl)
    show "cells ?hE ?m = Some (Clos Map.empty)" by simp
  qed simp_all
  then obtain h' mp' where
    l: "closures_loop_at enfa ?m (get_strs ?hE (states_at (get_aut ?hE enfa))) ?hE = Some h'"
    and u: "unchanged_except {?m} (Suc ?m) ?hE h'"
    and cm: "cells h' ?m = Some (Clos mp')"
    and inv: "\<forall>s a. mp' s = Some a \<longrightarrow> a < next_free h' \<and> a \<noteq> ?m
                  \<and> cells h' a = Some (Strs (computeStateEpsilonClosure s ?T))"
    and dm: "dom mp' = set (get_strs h (states_at (get_aut h enfa)))"
    using st by auto
  have r: "computeAllEpsilonClosures_at enfa h = Some (?m, h')"
    using l by (simp add: computeAllEpsilonClosures_at_def alloc_def)
  have u': "unchanged_except {} ?m h h'"
    using u by (simp add: unchanged_except_def)
  have m': "?m < next_free h'" using u by (simp add: unchanged_except_def)
  have "closures_at h' ?m s = get_prop (computeAllEpsilonClosures (automaton_at h enfa)) s" for s
  proof (cases "mp' s")
    case None
    with dm have "s \<notin> set (get_strs h (states_at (get_aut h enfa)))" by auto
    with None cm show ?thesis
      by (simp add: closures_at_def get_clos_def computeAllEpsilonClosures_apply automaton_at_def)
  next
    case (Some a)
    with dm have "s \<in> set (get_strs h (states_at (get_aut h enfa)))" by auto
    moreover from inv Some have "cells h' a = Some (Strs (computeStateEpsilonClosure s ?T))" by simp
    ultimately show ?thesis
      using Some cm tr
      by (simp add: closures_at_def get_clos_def get_strs_def computeAllEpsilonClosures_apply
          automaton_at_def)
  qed
  then have cl: "closures_at h' ?m = get_prop (computeAllEpsilonClosures (automaton_at h enfa))" by (rule ext)
  have "\<forall>s a. get_clos h' ?m s = Some a \<longrightarrow> a < next_free h'"
    using cm inv by (simp add: get_clos_def)
  with r u' m' cl show ?thesis by auto
qed

lemma env_reads:
  assumes "projection_env hE enfa m nt" and "unchanged_except {nt} (next_free hE) hE h"
  shows "get_aut h enfa = get_aut hE enfa"
    and "get_trans h (transitions_at (get_aut hE enfa)) = get_trans hE (transitions_at (get_aut hE enfa))"
    and "get_clos h m = get_clos hE m"
    and "\<And>s a. get_clos hE m s = Some a \<Longrightarrow> get_strs h a = get_strs hE a"
    and "nt < next_free h"
proof -
  note e = assms(1)[unfolded projection_env_def]
  show "get_aut h enfa = get_aut hE enfa"
    by (rule unchanged_reads(4)[OF assms(2)]) (use e in auto)
  show "get_trans h (transitions_at (get_aut hE enfa)) = get_trans hE (transitions_at (get_aut hE enfa))"
    by (rule unchanged_reads(2)[OF assms(2)]) (use e in auto)
  show "get_clos h m = get_clos hE m"
    by (rule unchanged_reads(3)[OF assms(2)]) (use e in auto)
  show "get_strs h a = get_strs hE a" if "get_clos hE m s = Some a" for s a
    by (rule unchanged_reads(1)[OF assms(2)]) (use e that in auto)
  show "nt < next_free h"
    using e assms(2) by (simp add: unchanged_except_def)
qed

lemma for_each_rel:
  assumes "R h acc"
    and "\<And>x h acc. x \<in> set xs \<Longrightarrow> R h acc \<Longrightarrow>
           (case body x acc of
              Inl e \<Rightarrow> snd (body_at x h) = Some e
            | Inr acc' \<Rightarrow> snd (body_at x h) = None \<and> R (fst (body_at x h)) acc')"
  shows "case for_each body xs acc of
           Inl e \<Rightarrow> snd (for_each_at body_at xs h) = Some e
         | Inr acc' \<Rightarrow> snd (for_each_at body_at xs h) = None \<and> R (fst (for_each_at body_at xs h)) acc'"
  using assms
proof (induction xs arbitrary: h acc)
  case Nil
  then show ?case by simp
next
  case (Cons x xs)
  from Cons.prems(2)[OF _ Cons.prems(1), of x]
  have s: "case body x acc of
              Inl e \<Rightarrow> snd (body_at x h) = Some e
            | Inr acc' \<Rightarrow> snd (body_at x h) = None \<and> R (fst (body_at x h)) acc'" by simp
  obtain h1 e1 where b: "body_at x h = (h1, e1)" by fastforce
  show ?case
  proof (cases "body x acc")
    case (Inl e)
    with s b show ?thesis by simp
  next
    case (Inr acc')
    with s b have e1: "e1 = None" and r: "R h1 acc'" by simp_all
    have 1: "for_each_at body_at (x # xs) h = for_each_at body_at xs h1"
      using b e1 by simp
    have 2: "for_each body (x # xs) acc = for_each body xs acc'"
      using Inr by simp
    have "case for_each body xs acc' of
           Inl e \<Rightarrow> snd (for_each_at body_at xs h1) = Some e
         | Inr acc'' \<Rightarrow> snd (for_each_at body_at xs h1) = None
                         \<and> R (fst (for_each_at body_at xs h1)) acc''"
      by (rule Cons.IH[OF r]) (rule Cons.prems(2), simp_all)
    then show ?thesis unfolding 1 2 .
  qed
qed

lemma get_after_add_at:
  "get_strs (add_at r x h) r = set_add (get_strs h r) x"
  "b \<noteq> r \<Longrightarrow> get_strs (add_at r x h) b = get_strs h b"
  "get_trans (add_at r x h) b = (if b = r then [] else get_trans h b)"
  "next_free (add_at r x h) = next_free h"
  by (simp_all add: add_at_def put_def get_strs_def get_trans_def)

lemma projectPair_at_refines:
  assumes env: "projection_env hE enfa m nt"
    and inv: "unchanged_except {nt} (next_free hE) hE h"
    and NT: "get_trans h nt = NT"
    and T: "transitions e = get_trans hE (transitions_at (get_aut hE enfa))"
  shows "case projectPair e (closures_at hE m) q a NT of
           Inl err \<Rightarrow> snd (projectPair_at enfa m nt q a h) = Some err
         | Inr NT' \<Rightarrow> snd (projectPair_at enfa m nt q a h) = None
                       \<and> get_trans (fst (projectPair_at enfa m nt q a h)) nt = NT'"
proof -
  let ?N = "next_free hE"
  let ?T = "get_trans hE (transitions_at (get_aut hE enfa))"
  let ?CL = "closures_at hE m"
  let ?r = "next_free h"
  let ?h1 = "\<lparr>cells = (cells h)(?r \<mapsto> Strs []), next_free = Suc ?r\<rparr>"
  have a1: "alloc (Strs []) h = (?r, ?h1)" by (simp add: alloc_def)
  have N: "?N \<le> ?r" using inv by (simp add: unchanged_except_def)
  have ntN: "nt < ?N" using env by (simp add: projection_env_def)
  have rnt: "?r \<noteq> nt" using N ntN by simp
  from unchanged_alloc[OF inv a1] have u1: "unchanged_except {nt} ?N hE ?h1" by simp
  have nt1: "get_trans ?h1 nt = NT" using NT rnt by (simp add: get_trans_def)
  have r1: "get_strs ?h1 ?r = []" by (simp add: get_strs_def)
  show ?thesis
  proof (cases "get_clos hE m q")
    case None
    then have "get_clos ?h1 m q = None" using env_reads(3)[OF env u1] by simp
    moreover have "?CL q = None" using None by (simp add: closures_at_def)
    ultimately show ?thesis
      using a1 by (simp add: projectPair_at_def projectPair_def)
  next
    case (Some qa)
    let ?qc = "get_strs hE qa"
    have g1: "get_clos ?h1 m q = Some qa" using Some env_reads(3)[OF env u1] by simp
    have qc1: "get_strs ?h1 qa = ?qc" using env_reads(4)[OF env u1 Some] .
    have CLq: "?CL q = Some ?qc" using Some by (simp add: closures_at_def)
    \<comment> \<open>the symbol step\<close>
    let ?R1 = "\<lambda>h' acc. unchanged_except {nt} ?N hE h' \<and> get_strs h' ?r = acc
                 \<and> get_trans h' nt = NT \<and> next_free h' = Suc ?r"
    let ?F = "\<lambda>p h'. fold (\<lambda>t. add_at ?r (to_st t))
                          (filter (\<lambda>t. from_st t = p \<and> symbol t = a)
                             (get_trans h' (transitions_at (get_aut h' enfa)))) h'"
    let ?G = "\<lambda>p reached. fold (\<lambda>t r. set_add r (to_st t))
               (filter (\<lambda>t. from_st t = p \<and> symbol t = a) ?T) reached"
    let ?h2 = "fold ?F ?qc ?h1"
    have add1: "?R1 (add_at ?r x h') (set_add acc x)" if "?R1 h' acc" for h' acc x
      using that rnt by (simp add: get_after_add_at unchanged_add_at N)
    have R1: "?R1 ?h2 (fold ?G ?qc [])"
    proof (rule fold_rel[where R = ?R1])
      show "?R1 ?h1 []" using u1 r1 nt1 by simp
    next
      fix p h' acc
      assume R: "?R1 h' acc"
      then have u: "unchanged_except {nt} ?N hE h'" by simp
      have "get_trans h' (transitions_at (get_aut h' enfa)) = ?T"
        using env_reads(1,2)[OF env u] by simp
      moreover have "?R1 (fold (\<lambda>t. add_at ?r (to_st t)) ts h')
                         (fold (\<lambda>t r. set_add r (to_st t)) ts acc)" for ts
        by (rule fold_rel[where R = ?R1, OF R]) (rule add1)
      ultimately show "?R1 (?F p h') (?G p acc)" by simp
    qed
    have reached: "fold ?G ?qc [] = reachedAfterSymbol ?T ?qc a"
      by (simp add: reachedAfterSymbol_def)
    let ?reached = "reachedAfterSymbol ?T ?qc a"
    \<comment> \<open>the second closure\<close>
    let ?f = "Suc ?r"
    let ?h3 = "\<lparr>cells = (cells ?h2)(?f \<mapsto> Strs []), next_free = Suc ?f\<rparr>"
    have a2: "alloc (Strs []) ?h2 = (?f, ?h3)" using R1 by (simp add: alloc_def)
    have fnt: "?f \<noteq> nt" using N ntN by simp
    have Nf: "?N \<le> ?f" using N by simp
    from unchanged_alloc[OF _ a2] R1 have u3: "unchanged_except {nt} ?N hE ?h3" by simp
    have r3: "get_strs ?h3 ?r = ?reached" using R1 reached by (simp add: get_strs_def)
    have f3: "get_strs ?h3 ?f = []" by (simp add: get_strs_def)
    have nt3: "get_trans ?h3 nt = NT" using R1 fnt by (simp add: get_trans_def)
    let ?R2 = "\<lambda>h' acc. unchanged_except {nt} ?N hE h' \<and> get_strs h' ?f = acc \<and> get_trans h' nt = NT"
    let ?body_at = "\<lambda>s h'. case get_clos h' m s of
                                  None \<Rightarrow> (h', Some TypeError)
                                | Some cs \<Rightarrow> (fold (add_at ?f) (get_strs h' cs) h', None)"
    let ?body = "\<lambda>s acc. case ?CL s of
                          None \<Rightarrow> Inl TypeError
                        | Some cs \<Rightarrow> Inr (fold (\<lambda>c acc'. set_add acc' c) cs acc)"
    have add2: "?R2 (add_at ?f x h') (set_add acc x)" if "?R2 h' acc" for h' acc x
      using that fnt by (simp add: get_after_add_at unchanged_add_at Nf)
    have loop: "case for_each ?body ?reached [] of
           Inl e \<Rightarrow> snd (for_each_at ?body_at ?reached ?h3) = Some e
         | Inr acc' \<Rightarrow> snd (for_each_at ?body_at ?reached ?h3) = None
                        \<and> ?R2 (fst (for_each_at ?body_at ?reached ?h3)) acc'"
    proof (rule for_each_rel[where R = ?R2])
      show "?R2 ?h3 []" using u3 f3 nt3 by simp
    next
      fix s h' acc
      assume R: "?R2 h' acc"
      then have u: "unchanged_except {nt} ?N hE h'" by simp
      show "case ?body s acc of
              Inl e \<Rightarrow> snd (?body_at s h') = Some e
            | Inr acc' \<Rightarrow> snd (?body_at s h') = None \<and> ?R2 (fst (?body_at s h')) acc'"
      proof (cases "get_clos hE m s")
        case None
        then show ?thesis using env_reads(3)[OF env u] by (simp add: closures_at_def)
      next
        case (Some ca)
        have "?R2 (fold (add_at ?f) cs h') (fold (\<lambda>c acc'. set_add acc' c) cs acc)" for cs
          by (rule fold_rel[where R = ?R2, OF R]) (rule add2)
        then show ?thesis
          using Some env_reads(3)[OF env u] env_reads(4)[OF env u Some]
          by (simp add: closures_at_def)
      qed
    qed
    obtain h4 e4 where fe: "for_each_at ?body_at ?reached ?h3 = (h4, e4)" by fastforce
    have unfold: "projectPair_at enfa m nt q a h =
          (case (h4, e4) of
             (h4, Some e) \<Rightarrow> (h4, Some e)
           | (h4, None) \<Rightarrow>
               (fold (\<lambda>target h'.
                        if List.find (\<lambda>t. from_st t = q \<and> to_st t = target \<and> symbol t = a)
                             (get_trans h' nt) = None
                        then put nt (Trans (get_trans h' nt @ [\<lparr>from_st = q, to_st = target, symbol = a\<rparr>])) h'
                        else h')
                  (get_strs h4 ?f) h4, None))"
      using a1 g1 qc1 a2 r3 fe by (simp add: projectPair_at_def)
    have pure: "projectPair e ?CL q a NT =
          (case for_each ?body ?reached [] of
             Inl e \<Rightarrow> Inl e
           | Inr targets \<Rightarrow> Inr (pushTransitions q a targets NT))"
      using CLq T by (simp add: projectPair_def finalReached_def)
    show ?thesis
    proof (cases "for_each ?body ?reached []")
      case (Inl err)
      with loop fe have "e4 = Some err" by simp
      with unfold pure Inl show ?thesis by simp
    next
      case (Inr targets)
      with loop fe have e4: "e4 = None" and t4: "get_strs h4 ?f = targets"
        and nt4: "get_trans h4 nt = NT" by simp_all
      let ?R3 = "\<lambda>h' acc. get_trans h' nt = acc"
      have "?R3 (fold (\<lambda>target h'.
                        if List.find (\<lambda>t. from_st t = q \<and> to_st t = target \<and> symbol t = a)
                             (get_trans h' nt) = None
                        then put nt (Trans (get_trans h' nt @ [\<lparr>from_st = q, to_st = target, symbol = a\<rparr>])) h'
                        else h') targets h4)
                (fold (\<lambda>target nt.
                        if List.find (\<lambda>t. from_st t = q \<and> to_st t = target \<and> symbol t = a) nt = None
                        then nt @ [\<lparr>from_st = q, to_st = target, symbol = a\<rparr>]
                        else nt) targets NT)"
        by (rule fold_rel[where R = ?R3, OF nt4]) (simp add: put_def get_trans_def)
      with unfold pure Inr e4 t4 show ?thesis by (simp add: pushTransitions_def)
    qed
  qed
qed

lemma projection_at_refines:
  assumes env: "projection_env hE enfa m nt"
    and inv: "unchanged_except {nt} (next_free hE) hE h"
    and NT: "get_trans h nt = NT"
    and T: "transitions e = get_trans hE (transitions_at (get_aut hE enfa))"
    and al: "al < next_free hE" "al \<noteq> nt" "get_strs hE al = alph"
  shows "case for_each (\<lambda>q. for_each (projectPair e (closures_at hE m) q) alph) sts NT of
           Inl err \<Rightarrow>
             snd (for_each_at (\<lambda>q h'. for_each_at (projectPair_at enfa m nt q) (get_strs h' al) h')
                    sts h) = Some err
         | Inr NT' \<Rightarrow>
             snd (for_each_at (\<lambda>q h'. for_each_at (projectPair_at enfa m nt q) (get_strs h' al) h')
                    sts h) = None
             \<and> (unchanged_except {nt} (next_free hE) hE
                  (fst (for_each_at (\<lambda>q h'. for_each_at (projectPair_at enfa m nt q) (get_strs h' al) h')
                          sts h))
                \<and> get_trans
                    (fst (for_each_at (\<lambda>q h'. for_each_at (projectPair_at enfa m nt q) (get_strs h' al) h')
                            sts h)) nt
                    = NT')"
proof -
  let ?R = "\<lambda>h acc. unchanged_except {nt} (next_free hE) hE h \<and> get_trans h nt = acc"
  have pair: "case projectPair e (closures_at hE m) q a acc of
                Inl err \<Rightarrow> snd (projectPair_at enfa m nt q a h) = Some err
              | Inr acc' \<Rightarrow> snd (projectPair_at enfa m nt q a h) = None
                            \<and> ?R (fst (projectPair_at enfa m nt q a h)) acc'"
    if R: "?R h acc" for q a h acc
  proof -
    from R have u: "unchanged_except {nt} (next_free hE) hE h" and g: "get_trans h nt = acc"
      by simp_all
    have f: "unchanged_except {nt} (next_free hE) hE (fst (projectPair_at enfa m nt q a h))"
      by (rule unchanged_projectPair_at[OF u]) simp
    from projectPair_at_refines[OF env u g T, of q a] f show ?thesis
      by (cases "projectPair e (closures_at hE m) q a acc") simp_all
  qed
  have inner: "case for_each (projectPair e (closures_at hE m) q) alph acc of
                Inl err \<Rightarrow> snd (for_each_at (projectPair_at enfa m nt q) (get_strs h al) h) = Some err
              | Inr acc' \<Rightarrow> snd (for_each_at (projectPair_at enfa m nt q) (get_strs h al) h) = None
                            \<and> ?R (fst (for_each_at (projectPair_at enfa m nt q) (get_strs h al) h)) acc'"
    if R: "?R h acc" for q h acc
  proof -
    from R have u: "unchanged_except {nt} (next_free hE) hE h" by simp
    have g: "get_strs h al = alph"
      using unchanged_reads(1)[OF u al(1)] al(2,3) by simp
    show ?thesis
      unfolding g by (rule for_each_rel[where R = ?R, OF R]) (rule pair)
  qed
  have "case for_each (\<lambda>q. for_each (projectPair e (closures_at hE m) q) alph) sts NT of
           Inl err \<Rightarrow>
             snd (for_each_at (\<lambda>q h'. for_each_at (projectPair_at enfa m nt q) (get_strs h' al) h')
                    sts h) = Some err
         | Inr NT' \<Rightarrow>
             snd (for_each_at (\<lambda>q h'. for_each_at (projectPair_at enfa m nt q) (get_strs h' al) h')
                    sts h) = None
             \<and> ?R (fst (for_each_at (\<lambda>q h'. for_each_at (projectPair_at enfa m nt q) (get_strs h' al) h')
                          sts h)) NT'"
    by (rule for_each_rel[where R = ?R]) (use inv NT inner in auto)
  then show ?thesis .
qed

lemma selectFinalStates_at_refines:
  "selectFinalStates_at enfa m h = selectFinalStates (automaton_at h enfa) (closures_at h m)"
proof -
  have "(\<lambda>q kept. case get_clos h m q of
                           None \<Rightarrow> Inl TypeError
                         | Some qClosure \<Rightarrow>
                             Inr (if list_ex (\<lambda>s. s \<in> set (get_strs h (finalStates_at (get_aut h enfa))))
                                       (get_strs h qClosure)
                                  then kept @ [q] else kept))
        = (\<lambda>q kept. case closures_at h m q of
                           None \<Rightarrow> Inl TypeError
                         | Some qClosure \<Rightarrow>
                             Inr (if list_ex (\<lambda>s. s \<in> set (finalStates (automaton_at h enfa))) qClosure
                                  then kept @ [q] else kept))"
    by (intro ext) (simp add: closures_at_def automaton_at_def split: option.splits)
  moreover have "states (automaton_at h enfa) = get_strs h (states_at (get_aut h enfa))"
    by (simp add: automaton_at_def)
  ultimately show ?thesis
    by (simp only: selectFinalStates_at_def selectFinalStates_def)
qed

lemma closures_at_unchanged:
  assumes "unchanged_except A n h h'" and "m < n" and "m \<notin> A"
    and "\<forall>s a. get_clos h m s = Some a \<longrightarrow> a < n \<and> a \<notin> A"
  shows "closures_at h' m = closures_at h m"
proof
  fix s
  have g: "get_clos h' m = get_clos h m" by (rule unchanged_reads(3)[OF assms(1-3)])
  show "closures_at h' m s = closures_at h m s"
  proof (cases "get_clos h m s")
    case None
    with g show ?thesis by (simp add: closures_at_def)
  next
    case (Some a)
    with assms(4) have "a < n" "a \<notin> A" by auto
    from unchanged_reads(1)[OF assms(1) this] Some g show ?thesis by (simp add: closures_at_def)
  qed
qed

lemma automaton_at_unchanged:
  assumes "unchanged_except A n h h'" and "enfa < n" and "enfa \<notin> A"
    and "states_at (get_aut h enfa) < n" and "states_at (get_aut h enfa) \<notin> A"
    and "alphabet_at (get_aut h enfa) < n" and "alphabet_at (get_aut h enfa) \<notin> A"
    and "transitions_at (get_aut h enfa) < n" and "transitions_at (get_aut h enfa) \<notin> A"
    and "finalStates_at (get_aut h enfa) < n" and "finalStates_at (get_aut h enfa) \<notin> A"
  shows "get_aut h' enfa = get_aut h enfa" and "automaton_at h' enfa = automaton_at h enfa"
proof -
  show a: "get_aut h' enfa = get_aut h enfa" by (rule unchanged_reads(4)[OF assms(1-3)])
  show "automaton_at h' enfa = automaton_at h enfa"
    unfolding automaton_at_def a
    using unchanged_reads(1)[OF assms(1,4,5)] unchanged_reads(1)[OF assms(1,6,7)]
      unchanged_reads(2)[OF assms(1,8,9)] unchanged_reads(1)[OF assms(1,10,11)]
    by simp
qed

lemma automaton_at_eq:
  "get_aut h a = r \<Longrightarrow>
   automaton_at h a =
     \<lparr>states = get_strs h (states_at r), alphabet = get_strs h (alphabet_at r),
      transitions = get_trans h (transitions_at r), initialState = initialState_of r,
      finalStates = get_strs h (finalStates_at r)\<rparr>"
  by (simp add: automaton_at_def)

lemma convertENFAToNFA_at_refines:
  assumes "allocated_automaton h enfa"
  shows "\<exists>h' res. convertENFAToNFA_at enfa h = Some (h', res)
           \<and> (case convertENFAToNFA (automaton_at h enfa) of
                 Inl err \<Rightarrow> res = Inl err
               | Inr r \<Rightarrow> (\<exists>n c. res = Inr (n, c) \<and> automaton_at h' n = nfa r
                             \<and> closures_at h' c = get_prop (closures r)
                             \<and> states_at (get_aut h' n) = states_at (get_aut h enfa)))"
proof -
  let ?e = "automaton_at h enfa"
  let ?CL = "get_prop (computeAllEpsilonClosures ?e)"
  note al = assms[unfolded allocated_automaton_def]
  from computeAllEpsilonClosures_at_refines[OF assms] obtain m h1 where
    c: "computeAllEpsilonClosures_at enfa h = Some (m, h1)"
    and u1: "unchanged_except {} (next_free h) h h1"
    and m: "next_free h \<le> m" "m < next_free h1"
    and cl1: "closures_at h1 m = ?CL"
    and rng: "\<forall>s a. get_clos h1 m s = Some a \<longrightarrow> a < next_free h1"
    by blast
  have n1: "next_free h \<le> next_free h1" using u1 by (simp add: unchanged_except_def)
  \<comment> \<open>the two arrays allocated before the loops\<close>
  let ?nt = "next_free h1"
  let ?h2 = "\<lparr>cells = (cells h1)(?nt \<mapsto> Trans []), next_free = Suc ?nt\<rparr>"
  have a2: "alloc (Trans []) h1 = (?nt, ?h2)" by (simp add: alloc_def)
  from unchanged_alloc[OF unchanged_except_refl a2]
  have u12: "unchanged_except {} ?nt h1 ?h2" by simp
  have u2: "unchanged_except {} (next_free h) h ?h2"
    by (rule unchanged_trans[OF u1 unchanged_weaken[OF u12 n1]]) simp
  have aut2: "get_aut ?h2 enfa = get_aut h enfa" "automaton_at ?h2 enfa = ?e"
    by (rule automaton_at_unchanged[OF u2]; use al in simp)+
  let ?al = "Suc ?nt"
  let ?h3 = "\<lparr>cells = (cells ?h2)(?al \<mapsto> Strs (alphabetWithoutEpsilon ?e)), next_free = Suc ?al\<rparr>"
  have alph2: "get_strs ?h2 (alphabet_at (get_aut ?h2 enfa)) = alphabet ?e"
    using aut2(2) unfolding automaton_at_def by (metis automaton.select_convs(2))
  have a3: "alloc (Strs (filter (\<lambda>a. a \<noteq> [] \<and> a \<noteq> EPSILON)
                                (get_strs ?h2 (alphabet_at (get_aut ?h2 enfa))))) ?h2 = (?al, ?h3)"
    unfolding alph2 by (simp add: alloc_def alphabetWithoutEpsilon_def)
  from unchanged_alloc[OF unchanged_except_refl a3]
  have u23: "unchanged_except {} ?al ?h2 ?h3" by simp
  have u13: "unchanged_except {} ?nt h1 ?h3"
    by (rule unchanged_trans[OF u12 unchanged_weaken[OF u23]]) simp_all
  have u3: "unchanged_except {} (next_free h) h ?h3"
    by (rule unchanged_trans[OF u1 unchanged_weaken[OF u13 n1]]) simp
  have aut3: "get_aut ?h3 enfa = get_aut h enfa" "automaton_at ?h3 enfa = ?e"
    by (rule automaton_at_unchanged[OF u3]; use al in simp)+
  have cl3: "closures_at ?h3 m = ?CL"
    using closures_at_unchanged[OF u13 m(2)] rng cl1 by simp
  have gc3: "get_clos ?h3 m = get_clos h1 m"
    by (rule unchanged_reads(3)[OF u13 m(2)]) simp
  have env: "projection_env ?h3 enfa m ?nt"
    unfolding projection_env_def aut3(1) gc3
    using al n1 m rng by (auto simp add: less_Suc_eq)
  have T: "transitions ?e = get_trans ?h3 (transitions_at (get_aut ?h3 enfa))"
    using aut3(2) unfolding automaton_at_def by (metis automaton.select_convs(3))
  have sts: "get_strs ?h3 (states_at (get_aut ?h3 enfa)) = states ?e"
    using aut3(2) unfolding automaton_at_def by (metis automaton.select_convs(1))
  have alph3: "get_strs ?h3 ?al = alphabetWithoutEpsilon ?e" by (simp add: get_strs_def)
  have nt3: "get_trans ?h3 ?nt = []" by (simp add: get_trans_def)
  \<comment> \<open>the projection loops\<close>
  let ?loop = "for_each_at (\<lambda>q h'. for_each_at (projectPair_at enfa m ?nt q) (get_strs h' ?al) h')
                 (states ?e) ?h3"
  have "?al < next_free ?h3" "?al \<noteq> ?nt" by simp_all
  from projection_at_refines[OF env unchanged_except_refl nt3 T this alph3, of "states ?e"]
  have loop: "case projectTransitions ?e ?CL of
           Inl err \<Rightarrow> snd ?loop = Some err
         | Inr NT' \<Rightarrow> snd ?loop = None
             \<and> (unchanged_except {?nt} (next_free ?h3) ?h3 (fst ?loop) \<and> get_trans (fst ?loop) ?nt = NT')"
    unfolding cl3 projectTransitions_def .
  obtain h4 e4 where l4: "?loop = (h4, e4)" by fastforce
  have unfold: "convertENFAToNFA_at enfa h =
      (case (h4, e4) of
         (h4, Some e) \<Rightarrow> Some (h4, Inl e)
       | (h4, None) \<Rightarrow>
           (case selectFinalStates_at enfa m h4 of
              Inl e \<Rightarrow> Some (h4, Inl e)
            | Inr kept \<Rightarrow>
                let (newFinalStates, h5) = alloc (Strs kept) h4;
                    (nfa, h6) =
                       alloc (Aut \<lparr>states_at = states_at (get_aut h5 enfa),
                                   alphabet_at = ?al,
                                   transitions_at = ?nt,
                                   initialState_of = initialState_of (get_aut h5 enfa),
                                   finalStates_at = newFinalStates\<rparr>) h5
                in Some (h6, Inr (nfa, m))))"
    using c a2 a3 l4 sts by (simp add: convertENFAToNFA_at_def)
  show ?thesis
  proof (cases "projectTransitions ?e ?CL")
    case (Inl err)
    with loop l4 have "e4 = Some err" by simp
    with unfold Inl show ?thesis by (simp add: convertENFAToNFA_def)
  next
    case (Inr NT')
    with loop l4 have e4: "e4 = None"
      and u34: "unchanged_except {?nt} (next_free ?h3) ?h3 h4"
      and nt4: "get_trans h4 ?nt = NT'" by simp_all
    have n4: "Suc ?al \<le> next_free h4" using u34 by (simp add: unchanged_except_def)
    have aut4: "get_aut h4 enfa = get_aut h enfa" "automaton_at h4 enfa = ?e"
      using automaton_at_unchanged[OF u34, of enfa] al n1 aut3 by simp_all
    have cl4: "closures_at h4 m = ?CL"
    proof -
      have "closures_at h4 m = closures_at ?h3 m"
      proof (rule closures_at_unchanged[OF u34])
        show "m < next_free ?h3" using m by simp
        show "m \<notin> {?nt}" using m by simp
        show "\<forall>s a. get_clos ?h3 m s = Some a \<longrightarrow> a < next_free ?h3 \<and> a \<notin> {?nt}"
          unfolding gc3 using rng by (auto simp: less_Suc_eq)
      qed
      with cl3 show ?thesis by simp
    qed
    have sel: "selectFinalStates_at enfa m h4 = selectFinalStates ?e ?CL"
      by (simp add: selectFinalStates_at_refines aut4 cl4)
    show ?thesis
    proof (cases "selectFinalStates ?e ?CL")
      case (Inl err)
      with unfold e4 sel Inr show ?thesis by (simp add: convertENFAToNFA_def)
    next
      case kept: (Inr kept)
      let ?nf = "next_free h4"
      let ?h5 = "\<lparr>cells = (cells h4)(?nf \<mapsto> Strs kept), next_free = Suc ?nf\<rparr>"
      let ?obj = "\<lparr>states_at = states_at (get_aut h enfa), alphabet_at = ?al, transitions_at = ?nt,
                   initialState_of = initialState_of (get_aut h enfa), finalStates_at = ?nf\<rparr>"
      let ?na = "Suc ?nf"
      let ?h6 = "\<lparr>cells = (cells ?h5)(?na \<mapsto> Aut ?obj), next_free = Suc ?na\<rparr>"
      have aut5: "get_aut ?h5 enfa = get_aut h enfa"
        using aut4(1) al n1 n4 by (simp add: get_aut_def)
      have res: "convertENFAToNFA_at enfa h = Some (?h6, Inr (?na, m))"
        using unfold e4 sel kept aut5 by (simp add: alloc_def)
      have u46: "unchanged_except {} ?nf h4 ?h6" by (simp add: unchanged_except_def)
      have st6: "get_strs ?h6 (states_at (get_aut h enfa)) = states ?e"
      proof -
        have "states_at (get_aut h enfa) < ?nf" using al n1 n4 by simp
        from unchanged_reads(1)[OF u46 this] aut4 show ?thesis
          unfolding automaton_at_def by (metis automaton.select_convs(1) empty_iff)
      qed
      have al6: "get_strs ?h6 ?al = alphabetWithoutEpsilon ?e"
      proof -
        have "?al < ?nf" using n4 by simp
        from unchanged_reads(1)[OF u46 this] have "get_strs ?h6 ?al = get_strs h4 ?al" by simp
        also have "\<dots> = get_strs ?h3 ?al"
          by (rule unchanged_reads(1)[OF u34]) simp_all
        finally show ?thesis using alph3 by simp
      qed
      have nt6: "get_trans ?h6 ?nt = NT'"
      proof -
        have "?nt < ?nf" using n4 by simp
        from unchanged_reads(2)[OF u46 this] nt4 show ?thesis by simp
      qed
      have nf6: "get_strs ?h6 ?nf = kept" by (simp add: get_strs_def)
      have g6: "get_aut ?h6 ?na = ?obj" by (simp add: get_aut_def)
      have in6: "initialState_of (get_aut h enfa) = initialState ?e"
        by (simp add: automaton_at_def)
      have A: "automaton_at ?h6 ?na =
                 \<lparr>states = states ?e, alphabet = alphabetWithoutEpsilon ?e, transitions = NT',
                  initialState = initialState ?e, finalStates = kept\<rparr>"
        using automaton_at_eq[OF g6] st6 al6 nt6 nf6 in6 by simp
      have C: "closures_at ?h6 m = ?CL"
      proof -
        have "closures_at ?h6 m = closures_at h4 m"
        proof (rule closures_at_unchanged[OF u46])
          show "m < ?nf" using m n4 by simp
          show "\<forall>s a. get_clos h4 m s = Some a \<longrightarrow> a < ?nf \<and> a \<notin> {}"
          proof -
            have "get_clos h4 m = get_clos ?h3 m"
              by (rule unchanged_reads(3)[OF u34]) (use m in simp_all)
            then have "get_clos h4 m = get_clos h1 m" using gc3 by simp
            moreover have "a < ?nf" if "a < next_free h1" for a
              using that n4 by simp
            ultimately show ?thesis using rng by auto
          qed
        qed simp
        with cl4 show ?thesis by simp
      qed
      have P: "convertENFAToNFA ?e =
                 Inr \<lparr>nfa = \<lparr>states = states ?e, alphabet = alphabetWithoutEpsilon ?e,
                             transitions = NT', initialState = initialState ?e,
                             finalStates = kept\<rparr>,
                      closures = computeAllEpsilonClosures ?e\<rparr>"
        using Inr kept by (simp add: convertENFAToNFA_def)
      show ?thesis
        unfolding P using res A C g6 by simp
    qed
  qed
qed

text \<open>What a lookup in the closure map finds for a declared state: an array that holds the
  state, that holds with every state the targets of the epsilon transitions leaving it,
  and that is the state alone when no epsilon transition leaves it.\<close>

lemma closure_lookup_properties:
  assumes "q \<in> set (states e)"
  shows "\<exists>c. get_prop (computeAllEpsilonClosures e) q = Some c
          \<and> q \<in> set c
          \<and> (\<forall>t\<in>set (transitions e). from_st t \<in> set c \<and> isEpsilon (symbol t) \<longrightarrow> to_st t \<in> set c)
          \<and> (\<not> list_ex (\<lambda>t. from_st t = q \<and> isEpsilon (symbol t)) (transitions e) \<longrightarrow> c = [q])"
proof -
  let ?c = "computeStateEpsilonClosure q (transitions e)"
  have 1: "get_prop (computeAllEpsilonClosures e) q = Some ?c"
    using assms by (simp add: computeAllEpsilonClosures_apply)
  have 2: "q \<in> set ?c"
    by (simp add: set_computeStateEpsilonClosure eps_closure_refl)
  have 3: "\<forall>t\<in>set (transitions e). from_st t \<in> set ?c \<and> isEpsilon (symbol t) \<longrightarrow> to_st t \<in> set ?c"
    unfolding set_computeStateEpsilonClosure
    by (blast intro: eps_closure_step eps_edgesI)
  have 4: "\<not> list_ex (\<lambda>t. from_st t = q \<and> isEpsilon (symbol t)) (transitions e) \<longrightarrow> ?c = [q]"
  proof
    assume "\<not> list_ex (\<lambda>t. from_st t = q \<and> isEpsilon (symbol t)) (transitions e)"
    then have "eps_edges (transitions e) `` {q} = {}"
      by (auto simp: eps_edges_def list_ex_iff)
    then show "?c = [q]" by (rule closure_no_edges)
  qed
  from 1 2 3 4 show ?thesis by blast
qed





section \<open>Properties claimed by the specification\<close>

text \<open>
  C6. \<^verbatim>\<open>computeStateEpsilonClosure\<close> terminates on every input, epsilon cycles included:
  the \<^verbatim>\<open>while\<close> loop ends from every closure and stack over every transition array, and
  what it returns is the epsilon closure of the state. On the two-state cycle with
  epsilon edges X to Y and Y to X, the closure of X and the closure of Y are both X, Y.
\<close>

theorem computeStateEpsilonClosure_terminates:
  "closure_loop_dom (ts, closure, stack)
   \<and> set (computeStateEpsilonClosure state ts) = eps_closure ts {state}
   \<and> computeStateEpsilonClosure [0x58] EPSILON_CYCLE = [[0x58], [0x59]]
   \<and> computeStateEpsilonClosure [0x59] EPSILON_CYCLE = [[0x58], [0x59]]"
proof -
  have "closure_loop_dom (ts, closure, stack)"
    using closure_loop_total by blast
  moreover have "computeStateEpsilonClosure [0x58] EPSILON_CYCLE = [[0x58], [0x59]]"
    by (simp add: computeStateEpsilonClosure_def EPSILON_CYCLE_def epsilonMoves_def
        EPSILON_def closure_loop.simps)
  moreover have "computeStateEpsilonClosure [0x59] EPSILON_CYCLE = [[0x58], [0x59]]"
    by (simp add: computeStateEpsilonClosure_def EPSILON_CYCLE_def epsilonMoves_def
        EPSILON_def closure_loop.simps)
  ultimately show ?thesis
    by (simp add: set_computeStateEpsilonClosure)
qed




text \<open>
  C3. The worked example: for states A, B, C, alphabet 0, 1, \<open>\<epsilon>\<close>, transitions
  A-0-A, A-\<open>\<epsilon>\<close>-B, B-1-B, B-\<open>\<epsilon>\<close>-C, C-0-C, initial state A and final state C, the
  converter returns the closures A: A, B, C; B: B, C; C: C; the transitions from A on 0
  to A, B, C, from A on 1 to B, C, from B on 0 to C, from B on 1 to B, C, from C on 0 to
  C, none from C on 1 and no others; and the final states A, B, C.
\<close>

theorem worked_example:
  "convertENFAToNFA INITIAL_ENFA = Inr INITIAL_RESULT
   \<and> get_prop (closures INITIAL_RESULT) st_A = Some [st_A, st_B, st_C]
   \<and> get_prop (closures INITIAL_RESULT) st_B = Some [st_B, st_C]
   \<and> get_prop (closures INITIAL_RESULT) st_C = Some [st_C]
   \<and> own_props (closures INITIAL_RESULT)
       = [st_A \<mapsto> [st_A, st_B, st_C], st_B \<mapsto> [st_B, st_C], st_C \<mapsto> [st_C]]
   \<and> targets_of (nfa INITIAL_RESULT) st_A sym_0 = [st_A, st_B, st_C]
   \<and> targets_of (nfa INITIAL_RESULT) st_A sym_1 = [st_B, st_C]
   \<and> targets_of (nfa INITIAL_RESULT) st_B sym_0 = [st_C]
   \<and> targets_of (nfa INITIAL_RESULT) st_B sym_1 = [st_B, st_C]
   \<and> targets_of (nfa INITIAL_RESULT) st_C sym_0 = [st_C]
   \<and> targets_of (nfa INITIAL_RESULT) st_C sym_1 = []
   \<and> length (transitions (nfa INITIAL_RESULT)) = 9
   \<and> finalStates (nfa INITIAL_RESULT) = [st_A, st_B, st_C]"
proof -
  have "convertENFAToNFA INITIAL_ENFA = Inr INITIAL_RESULT" by (rule convert_INITIAL_ENFA)
  then show ?thesis by (simp add: INITIAL_RESULT_def targets_of_def get_prop_def)
qed

text \<open>
  C4, as stated, fails where a final state is not a declared state: with states A and
  final states B the converter returns no final state at all, so the original final
  state B is not final in the result.
\<close>

theorem final_states_counterexample:
  "map_sum id nfa (convertENFAToNFA FINAL_OUTSIDE) =
     Inr \<lparr>states = [st_A], alphabet = [sym_0], transitions = [],
          initialState = st_A, finalStates = []\<rparr>
   \<and> st_B \<in> set (finalStates FINAL_OUTSIDE)"
  by (simp add: FINAL_OUTSIDE_def eval_defs)

text \<open>
  C4, amended. Whenever the converter returns, the final states of the result are exactly
  the declared states whose epsilon closure meets the original final states; so every
  original final state that is a declared state is final in the result, and so is every
  declared state with an epsilon path to an original final state.
\<close>

theorem final_states_exact:
  assumes "convertENFAToNFA e = Inr r"
  shows "set (finalStates (nfa r))
           = {q \<in> set (states e). eps_closure (transitions e) {q} \<inter> set (finalStates e) \<noteq> {}}
         \<and> set (finalStates e) \<inter> set (states e) \<subseteq> set (finalStates (nfa r))
         \<and> {q \<in> set (states e). \<exists>f\<in>set (finalStates e). (q, f) \<in> (eps_edges (transitions e))\<^sup>*}
             \<subseteq> set (finalStates (nfa r))"
proof -
  note eq = set_selected_finals[OF assms]
  have "set (finalStates e) \<inter> set (states e) \<subseteq> set (finalStates (nfa r))"
    unfolding eq using eps_closure_refl by auto
  moreover have "{q \<in> set (states e). \<exists>f\<in>set (finalStates e). (q, f) \<in> (eps_edges (transitions e))\<^sup>*}
             \<subseteq> set (finalStates (nfa r))"
    unfolding eq by (auto simp: eps_closure_def)
  ultimately show ?thesis using eq by blast
qed

theorem final_states_exact_witness:
  "convertENFAToNFA INITIAL_ENFA = Inr INITIAL_RESULT
   \<and> set (finalStates (nfa INITIAL_RESULT))
       = {q \<in> set (states INITIAL_ENFA).
            eps_closure (transitions INITIAL_ENFA) {q} \<inter> set (finalStates INITIAL_ENFA) \<noteq> {}}
   \<and> set (finalStates INITIAL_ENFA) \<inter> set (states INITIAL_ENFA) \<subseteq> set (finalStates (nfa INITIAL_RESULT))
   \<and> set (finalStates (nfa INITIAL_RESULT)) = {st_A, st_B, st_C}"
proof -
  have h: "convertENFAToNFA INITIAL_ENFA = Inr INITIAL_RESULT" by (rule convert_INITIAL_ENFA)
  have "set (finalStates (nfa INITIAL_RESULT)) = {st_A, st_B, st_C}"
    by (simp add: INITIAL_RESULT_def)
  with final_states_exact[OF h] h show ?thesis by blast
qed

text \<open>
  C5, which the code breaks for one state name. The entries of the closure map are its own
  properties, and \<^verbatim>\<open>computeAllEpsilonClosures\<close> creates one for every state of \<open>states\<close>
  except a state named \<^verbatim>\<open>__proto__\<close>: the assignment for that state makes its closure the
  prototype of the map and creates no entry. Every entry that the map has holds its own
  state, holds with every state the targets of the epsilon transitions leaving it, and is
  the state alone when no epsilon transition leaves it. For the automaton with the states
  A and \<^verbatim>\<open>__proto__\<close> the map has the one entry A and none for \<^verbatim>\<open>__proto__\<close>, whose
  closure is found by a lookup only.
\<close>

theorem closure_map_entries:
  "dom (own_props (computeAllEpsilonClosures e)) = set (states e) - {PROTO}
   \<and> (\<forall>q c. own_props (computeAllEpsilonClosures e) q = Some c \<longrightarrow>
          q \<in> set c
          \<and> (\<forall>t\<in>set (transitions e). from_st t \<in> set c \<and> isEpsilon (symbol t) \<longrightarrow> to_st t \<in> set c)
          \<and> (\<not> list_ex (\<lambda>t. from_st t = q \<and> isEpsilon (symbol t)) (transitions e) \<longrightarrow> c = [q]))
   \<and> PROTO \<in> set (states PROTO_ENFA)
   \<and> dom (own_props (computeAllEpsilonClosures PROTO_ENFA)) = {st_A}
   \<and> own_props (computeAllEpsilonClosures PROTO_ENFA) PROTO = None
   \<and> proto_array (computeAllEpsilonClosures PROTO_ENFA) = Some [PROTO]
   \<and> get_prop (computeAllEpsilonClosures PROTO_ENFA) PROTO = Some [PROTO]
   \<and> get_prop (computeAllEpsilonClosures PROTO_ENFA) st_A = Some [st_A, PROTO]"
proof -
  have 1: "dom (own_props (computeAllEpsilonClosures e)) = set (states e) - {PROTO}"
    by (auto simp: computeAllEpsilonClosures_own dom_def)
  have 2: "\<forall>q c. own_props (computeAllEpsilonClosures e) q = Some c \<longrightarrow>
          q \<in> set c
          \<and> (\<forall>t\<in>set (transitions e). from_st t \<in> set c \<and> isEpsilon (symbol t) \<longrightarrow> to_st t \<in> set c)
          \<and> (\<not> list_ex (\<lambda>t. from_st t = q \<and> isEpsilon (symbol t)) (transitions e) \<longrightarrow> c = [q])"
  proof (intro allI impI)
    fix q c
    assume o: "own_props (computeAllEpsilonClosures e) q = Some c"
    then have q: "q \<in> set (states e)"
      by (simp add: computeAllEpsilonClosures_own split: if_splits)
    from o have "get_prop (computeAllEpsilonClosures e) q = Some c"
      by (simp add: get_prop_def)
    with closure_lookup_properties[OF q]
    show "q \<in> set c
          \<and> (\<forall>t\<in>set (transitions e). from_st t \<in> set c \<and> isEpsilon (symbol t) \<longrightarrow> to_st t \<in> set c)
          \<and> (\<not> list_ex (\<lambda>t. from_st t = q \<and> isEpsilon (symbol t)) (transitions e) \<longrightarrow> c = [q])"
      by simp
  qed
  have 3: "PROTO \<in> set (states PROTO_ENFA)"
    by (simp add: PROTO_ENFA_def)
  have 4: "own_props (computeAllEpsilonClosures PROTO_ENFA) PROTO = None"
    by (simp add: computeAllEpsilonClosures_own)
  have 5: "dom (own_props (computeAllEpsilonClosures PROTO_ENFA)) = {st_A}"
    by (auto simp: computeAllEpsilonClosures_own dom_def PROTO_ENFA_def PROTO_def)
  have 6: "proto_array (computeAllEpsilonClosures PROTO_ENFA) = Some [PROTO]"
    by (simp add: PROTO_ENFA_def eval_defs)
  have 7: "get_prop (computeAllEpsilonClosures PROTO_ENFA) PROTO = Some [PROTO]"
    by (simp add: PROTO_ENFA_def eval_defs)
  have 8: "get_prop (computeAllEpsilonClosures PROTO_ENFA) st_A = Some [st_A, PROTO]"
    by (simp add: PROTO_ENFA_def eval_defs)
  from 1 2 3 4 5 6 7 8 show ?thesis by blast
qed

theorem closure_map_entries_witness:
  "own_props (computeAllEpsilonClosures INITIAL_ENFA) st_A = Some [st_A, st_B, st_C]
   \<and> st_A \<in> set [st_A, st_B, st_C]
   \<and> \<lparr>from_st = st_B, to_st = st_C, symbol = EPSILON\<rparr> \<in> set (transitions INITIAL_ENFA)
   \<and> st_B \<in> set [st_A, st_B, st_C] \<and> isEpsilon EPSILON \<and> st_C \<in> set [st_A, st_B, st_C]
   \<and> own_props (computeAllEpsilonClosures INITIAL_ENFA) st_C = Some [st_C]
   \<and> \<not> list_ex (\<lambda>t. from_st t = st_C \<and> isEpsilon (symbol t)) (transitions INITIAL_ENFA)
   \<and> dom (own_props (computeAllEpsilonClosures INITIAL_ENFA)) = set (states INITIAL_ENFA)
   \<and> PROTO \<notin> set (states INITIAL_ENFA)"
proof -
  note t = closure_map_entries[of INITIAL_ENFA]
  have a: "own_props (computeAllEpsilonClosures INITIAL_ENFA) st_A = Some [st_A, st_B, st_C]"
    by (simp add: INITIAL_ENFA_def eval_defs)
  have c: "own_props (computeAllEpsilonClosures INITIAL_ENFA) st_C = Some [st_C]"
    by (simp add: INITIAL_ENFA_def eval_defs)
  have m: "\<lparr>from_st = st_B, to_st = st_C, symbol = EPSILON\<rparr> \<in> set (transitions INITIAL_ENFA)"
    by (simp add: INITIAL_ENFA_def EPSILON_def)
  have b: "st_B \<in> set [st_A, st_B, st_C]" and e: "isEpsilon EPSILON"
    by (simp_all add: isEpsilon_def EPSILON_def)
  have n: "\<not> list_ex (\<lambda>t. from_st t = st_C \<and> isEpsilon (symbol t)) (transitions INITIAL_ENFA)"
    by (simp add: INITIAL_ENFA_def isEpsilon_def EPSILON_def)
  have p: "PROTO \<notin> set (states INITIAL_ENFA)"
    by (simp add: INITIAL_ENFA_def PROTO_def)
  from t a have 1: "st_A \<in> set [st_A, st_B, st_C]" by blast
  from t a m b e have 2: "st_C \<in> set [st_A, st_B, st_C]" by fastforce
  from t p have 3: "dom (own_props (computeAllEpsilonClosures INITIAL_ENFA)) = set (states INITIAL_ENFA)"
    by simp
  from a 1 m b e 2 c n 3 p show ?thesis by blast
qed



text \<open>
  C10. If the source and the target of every transition are declared states, every
  closure-map lookup of the converter is defined: \<^verbatim>\<open>closures[q]\<close> for every state \<open>q\<close> the
  loops iterate over, and \<^verbatim>\<open>closures[s]\<close> for every state \<open>s\<close> that a symbol step reaches
  from the closure of such a \<open>q\<close>; so the converter raises no \<^verbatim>\<open>TypeError\<close> and returns.
\<close>

theorem closure_lookups_defined:
  assumes "endpoints_in_states e"
  shows "(\<forall>q\<in>set (states e).
            get_prop (computeAllEpsilonClosures e) q = Some (computeStateEpsilonClosure q (transitions e)))
       \<and> (\<forall>q\<in>set (states e). \<forall>a.
            \<forall>s\<in>set (reachedAfterSymbol (transitions e) (computeStateEpsilonClosure q (transitions e)) a).
              get_prop (computeAllEpsilonClosures e) s = Some (computeStateEpsilonClosure s (transitions e)))
       \<and> (\<exists>r. convertENFAToNFA e = Inr r)"
proof -
  have 1: "\<forall>q\<in>set (states e).
            get_prop (computeAllEpsilonClosures e) q = Some (computeStateEpsilonClosure q (transitions e))"
    by (simp add: computeAllEpsilonClosures_apply)
  have "s \<in> set (states e)"
    if "s \<in> set (reachedAfterSymbol (transitions e) qc a)" for s qc a
    using that assms
    by (auto simp: set_reachedAfterSymbol symbol_step_def endpoints_in_states_def list_all_iff)
  with 1 have 2: "\<forall>q\<in>set (states e). \<forall>a.
            \<forall>s\<in>set (reachedAfterSymbol (transitions e) (computeStateEpsilonClosure q (transitions e)) a).
              get_prop (computeAllEpsilonClosures e) s = Some (computeStateEpsilonClosure s (transitions e))"
    by blast
  have 3: "\<exists>r. convertENFAToNFA e = Inr r"
    using endpoints_steps_in_states[OF assms] by (simp add: convert_Inr_iff)
  from 1 2 3 show ?thesis by blast
qed

theorem closure_lookups_defined_witness:
  "endpoints_in_states INITIAL_ENFA
   \<and> convertENFAToNFA INITIAL_ENFA = Inr INITIAL_RESULT
   \<and> st_A \<in> set (states INITIAL_ENFA)
   \<and> get_prop (computeAllEpsilonClosures INITIAL_ENFA) st_A
       = Some (computeStateEpsilonClosure st_A (transitions INITIAL_ENFA))"
proof -
  have h: "endpoints_in_states INITIAL_ENFA"
    by (simp add: endpoints_in_states_def INITIAL_ENFA_def)
  have q: "st_A \<in> set (states INITIAL_ENFA)" by (simp add: INITIAL_ENFA_def)
  from closure_lookups_defined[OF h] q
  have "get_prop (computeAllEpsilonClosures INITIAL_ENFA) st_A
       = Some (computeStateEpsilonClosure st_A (transitions INITIAL_ENFA))" by blast
  with h q convert_INITIAL_ENFA show ?thesis by blast
qed

text \<open>
  C7, as stated, fails on automata without epsilon transitions that break an invariant of
  the data model. A transition on a symbol missing from the alphabet, or one that leaves
  an undeclared state, is dropped by the conversion; an undeclared final state is dropped
  from the final states; and a transition into an undeclared state makes the converter
  raise instead of returning.
\<close>

theorem no_epsilon_identity_counterexample:
  "no_epsilon_transitions UNDECLARED_SYMBOL
   \<and> transitions UNDECLARED_SYMBOL = [\<lparr>from_st = st_A, to_st = st_A, symbol = sym_1\<rparr>]
   \<and> map_sum id nfa (convertENFAToNFA UNDECLARED_SYMBOL) =
       Inr \<lparr>states = [st_A], alphabet = [sym_0], transitions = [],
            initialState = st_A, finalStates = [st_A]\<rparr>
   \<and> no_epsilon_transitions UNDECLARED_FROM
   \<and> transitions UNDECLARED_FROM = [\<lparr>from_st = st_B, to_st = st_A, symbol = sym_0\<rparr>]
   \<and> map_sum id nfa (convertENFAToNFA UNDECLARED_FROM) =
       Inr \<lparr>states = [st_A], alphabet = [sym_0], transitions = [],
            initialState = st_A, finalStates = [st_A]\<rparr>
   \<and> no_epsilon_transitions FINAL_OUTSIDE
   \<and> finalStates FINAL_OUTSIDE = [st_B]
   \<and> map_sum id nfa (convertENFAToNFA FINAL_OUTSIDE) =
       Inr \<lparr>states = [st_A], alphabet = [sym_0], transitions = [],
            initialState = st_A, finalStates = []\<rparr>
   \<and> no_epsilon_transitions DANGLING_TO
   \<and> convertENFAToNFA DANGLING_TO = Inl TypeError"
  by (simp add: UNDECLARED_SYMBOL_def UNDECLARED_FROM_def FINAL_OUTSIDE_def DANGLING_TO_def
      no_epsilon_transitions_def isEpsilon_def eval_defs)

text \<open>
  C7, amended. For every automaton without epsilon transitions in which the final states
  are declared states, the source and the target of every transition are declared states
  and the symbol of every transition is in the alphabet, the converter returns an automaton
  whose transitions are, as a set, the original transitions and whose final states are,
  as a set, the original final states.
\<close>

theorem no_epsilon_identity:
  assumes "no_epsilon_transitions e" and "finals_in_states e"
    and "endpoints_in_states e" and "symbols_in_alphabet e"
  shows "\<exists>r. convertENFAToNFA e = Inr r
           \<and> set (transitions (nfa r)) = set (transitions e)
           \<and> set (finalStates (nfa r)) = set (finalStates e)"
proof -
  let ?ts = "transitions e"
  from endpoints_steps_in_states[OF assms(3)] obtain r where r: "convertENFAToNFA e = Inr r"
    by (auto simp: convert_Inr_iff[symmetric])
  have proj: "projected ?ts q a = symbol_step ?ts {q} a" for q a
    by (simp add: projected_def no_eps_closure[OF assms(1)])
  have sym: "symbol t \<in> set (alphabetWithoutEpsilon e)" if "t \<in> set ?ts" for t
    using that assms(1,4)
    by (auto simp: no_epsilon_transitions_def symbols_in_alphabet_def list_all_iff
        alphabetWithoutEpsilon_def isEpsilon_def)
  have frm: "from_st t \<in> set (states e)" if "t \<in> set ?ts" for t
    using that assms(3) by (auto simp: endpoints_in_states_def list_all_iff)
  have "set (transitions (nfa r)) = set ?ts"
  proof
    show "set (transitions (nfa r)) \<subseteq> set ?ts"
      unfolding convert_InrD(7)[OF r] proj
      by (auto simp: symbol_step_def transition_surj)
  next
    show "set ?ts \<subseteq> set (transitions (nfa r))"
    proof
      fix t assume t: "t \<in> set ?ts"
      have "to_st t \<in> symbol_step ?ts {from_st t} (symbol t)"
        using t by (auto simp: symbol_step_def)
      then have "\<lparr>from_st = from_st t, to_st = to_st t, symbol = symbol t\<rparr>
                 \<in> (\<lambda>x. \<lparr>from_st = from_st t, to_st = x, symbol = symbol t\<rparr>) `
                     projected ?ts (from_st t) (symbol t)"
        unfolding proj by (rule imageI)
      then show "t \<in> set (transitions (nfa r))"
        unfolding convert_InrD(7)[OF r] transition_surj
        using frm[OF t] sym[OF t] by blast
    qed
  qed
  moreover have "set (finalStates (nfa r)) = set (finalStates e)"
    unfolding set_selected_finals[OF r] no_eps_closure[OF assms(1)]
    using assms(2) by (auto simp: finals_in_states_def)
  ultimately show ?thesis using r by blast
qed

theorem no_epsilon_identity_witness:
  "no_epsilon_transitions PLAIN_NFA \<and> finals_in_states PLAIN_NFA
   \<and> endpoints_in_states PLAIN_NFA \<and> symbols_in_alphabet PLAIN_NFA
   \<and> (\<exists>r. convertENFAToNFA PLAIN_NFA = Inr r
          \<and> set (transitions (nfa r)) = set (transitions PLAIN_NFA)
          \<and> set (finalStates (nfa r)) = set (finalStates PLAIN_NFA))"
proof -
  have h1: "no_epsilon_transitions PLAIN_NFA"
    by (simp add: no_epsilon_transitions_def PLAIN_NFA_def isEpsilon_def EPSILON_def)
  have h2: "finals_in_states PLAIN_NFA"
    by (simp add: finals_in_states_def PLAIN_NFA_def)
  have h3: "endpoints_in_states PLAIN_NFA"
    by (simp add: endpoints_in_states_def PLAIN_NFA_def)
  have h4: "symbols_in_alphabet PLAIN_NFA"
    by (simp add: symbols_in_alphabet_def PLAIN_NFA_def)
  from no_epsilon_identity[OF h1 h2 h3 h4] h1 h2 h3 h4 show ?thesis by blast
qed

text \<open>
  C2, as stated, fails: the converter has no validation. An automaton whose initial state,
  final state, transition source and transition symbol are all undeclared is converted,
  and the result keeps the undeclared initial state.
\<close>

theorem no_validation_counterexample:
  "\<not> initial_in_states MALFORMED \<and> \<not> finals_in_states MALFORMED
   \<and> \<not> endpoints_in_states MALFORMED \<and> \<not> symbols_in_alphabet MALFORMED
   \<and> map_sum id nfa (convertENFAToNFA MALFORMED) =
       Inr \<lparr>states = [st_A], alphabet = [sym_0], transitions = [],
            initialState = st_Z, finalStates = []\<rparr>"
  by (simp add: MALFORMED_def initial_in_states_def finals_in_states_def endpoints_in_states_def
      symbols_in_alphabet_def isEpsilon_def eval_defs)

text \<open>
  C2, amended. The converter rejects its input, by the \<^verbatim>\<open>TypeError\<close> of a failed
  closure-map lookup during projection, exactly when some transition on a symbol of the
  epsilon-free alphabet leaves a state in the epsilon closure of a declared state and
  enters an undeclared state. Every other input is converted: in particular, when every
  transition ends in a declared state the converter returns a result with the states and
  the initial state of the input, whatever else is undeclared.
\<close>

theorem rejection_exact:
  "(convertENFAToNFA e = Inl TypeError \<longleftrightarrow>
      (\<exists>q\<in>set (states e). \<exists>a\<in>set (alphabetWithoutEpsilon e). \<exists>t\<in>set (transitions e).
          from_st t \<in> eps_closure (transitions e) {q} \<and> symbol t = a
          \<and> to_st t \<notin> set (states e)))
   \<and> (list_all (\<lambda>t. to_st t \<in> set (states e)) (transitions e)
        \<longrightarrow> (\<exists>r. convertENFAToNFA e = Inr r
               \<and> states (nfa r) = states e \<and> initialState (nfa r) = initialState e))"
proof -
  have 1: "convertENFAToNFA e = Inl TypeError \<longleftrightarrow> \<not> steps_in_states e"
    using convert_undefined[of e] convert_Inr_iff[of e] by auto
  have 2: "\<exists>r. convertENFAToNFA e = Inr r
               \<and> states (nfa r) = states e \<and> initialState (nfa r) = initialState e"
    if "list_all (\<lambda>t. to_st t \<in> set (states e)) (transitions e)"
  proof -
    from that have "steps_in_states e"
      by (auto simp: steps_in_states_iff list_all_iff)
    then obtain r where "convertENFAToNFA e = Inr r" by (auto simp: convert_Inr_iff[symmetric])
    with convert_InrD(2,4)[OF this] show ?thesis by blast
  qed
  from 1 2 show ?thesis unfolding steps_in_states_iff by blast
qed

theorem rejection_exact_witness:
  "list_all (\<lambda>t. to_st t \<in> set (states MALFORMED)) (transitions MALFORMED)
   \<and> (\<exists>r. convertENFAToNFA MALFORMED = Inr r
          \<and> states (nfa r) = states MALFORMED \<and> initialState (nfa r) = initialState MALFORMED)
   \<and> convertENFAToNFA DANGLING_TO = Inl TypeError"
proof -
  have h: "list_all (\<lambda>t. to_st t \<in> set (states MALFORMED)) (transitions MALFORMED)"
    by (simp add: MALFORMED_def)
  have d: "convertENFAToNFA DANGLING_TO = Inl TypeError"
    by (simp add: DANGLING_TO_def eval_defs)
  from rejection_exact[of MALFORMED] h d show ?thesis by blast
qed

text \<open>
  C9. Whenever the converter returns, the automaton it returns has the states and the
  initial state of the input, and as alphabet the input alphabet without the epsilon
  markers. Over the store, for an input automaton object whose arrays are allocated, the
  call ends, and every object that existed before the call, the input automaton object
  and its four arrays among them, is afterwards what it was before: the converter writes
  only to objects it has created itself. What the call leaves in the store is what the
  converter computes: the same error, or a new automaton object and a closure map that
  hold the automaton and the closures of the result.
\<close>

theorem conversion_frame:
  "(convertENFAToNFA e = Inr r \<longrightarrow>
      states (nfa r) = states e \<and> initialState (nfa r) = initialState e
      \<and> alphabet (nfa r) = filter (\<lambda>a. \<not> isEpsilon a) (alphabet e))
   \<and> (allocated_automaton h enfa \<longrightarrow>
        (\<exists>h' res. convertENFAToNFA_at enfa h = Some (h', res)
           \<and> (\<forall>a<next_free h. cells h' a = cells h a)
           \<and> automaton_at h' enfa = automaton_at h enfa
           \<and> (case convertENFAToNFA (automaton_at h enfa) of
                 Inl err \<Rightarrow> res = Inl err
               | Inr r \<Rightarrow> (\<exists>n c. res = Inr (n, c) \<and> automaton_at h' n = nfa r
                             \<and> closures_at h' c = get_prop (closures r)))))"
proof (rule conjI; rule impI)
  assume r: "convertENFAToNFA e = Inr r"
  have "alphabetWithoutEpsilon e = filter (\<lambda>a. \<not> isEpsilon a) (alphabet e)"
    by (simp add: alphabetWithoutEpsilon_def isEpsilon_def)
  with convert_InrD(2,3,4)[OF r]
  show "states (nfa r) = states e \<and> initialState (nfa r) = initialState e
      \<and> alphabet (nfa r) = filter (\<lambda>a. \<not> isEpsilon a) (alphabet e)" by simp
next
  assume al: "allocated_automaton h enfa"
  from convertENFAToNFA_at_refines[OF al] obtain h' res where
    c: "convertENFAToNFA_at enfa h = Some (h', res)"
    and v: "case convertENFAToNFA (automaton_at h enfa) of
                 Inl err \<Rightarrow> res = Inl err
               | Inr r \<Rightarrow> (\<exists>n c. res = Inr (n, c) \<and> automaton_at h' n = nfa r
                             \<and> closures_at h' c = get_prop (closures r)
                             \<and> states_at (get_aut h' n) = states_at (get_aut h enfa))"
    by blast
  from unchanged_convertENFAToNFA_at[OF c] have u: "unchanged_except {} (next_free h) h h'" .
  then have f: "\<forall>a<next_free h. cells h' a = cells h a"
    by (simp add: unchanged_except_def)
  have a: "automaton_at h' enfa = automaton_at h enfa"
    by (rule automaton_at_unchanged(2)[OF u]) (use al in \<open>simp_all add: allocated_automaton_def\<close>)
  have v': "case convertENFAToNFA (automaton_at h enfa) of
                 Inl err \<Rightarrow> res = Inl err
               | Inr r \<Rightarrow> (\<exists>n c. res = Inr (n, c) \<and> automaton_at h' n = nfa r
                             \<and> closures_at h' c = get_prop (closures r))"
    using v by (auto split: sum.splits)
  from c f a v' show "\<exists>h' res. convertENFAToNFA_at enfa h = Some (h', res)
           \<and> (\<forall>a<next_free h. cells h' a = cells h a)
           \<and> automaton_at h' enfa = automaton_at h enfa
           \<and> (case convertENFAToNFA (automaton_at h enfa) of
                 Inl err \<Rightarrow> res = Inl err
               | Inr r \<Rightarrow> (\<exists>n c. res = Inr (n, c) \<and> automaton_at h' n = nfa r
                             \<and> closures_at h' c = get_prop (closures r)))" by blast
qed

theorem conversion_frame_witness:
  "convertENFAToNFA INITIAL_ENFA = Inr INITIAL_RESULT
   \<and> states (nfa INITIAL_RESULT) = states INITIAL_ENFA
   \<and> initialState (nfa INITIAL_RESULT) = initialState INITIAL_ENFA
   \<and> alphabet (nfa INITIAL_RESULT) = [sym_0, sym_1]
   \<and> allocated_automaton INITIAL_STORE 4
   \<and> automaton_at INITIAL_STORE 4 = INITIAL_ENFA
   \<and> (\<exists>h' n c. convertENFAToNFA_at 4 INITIAL_STORE = Some (h', Inr (n, c))
          \<and> cells h' 0 = Some (Strs (states INITIAL_ENFA))
          \<and> cells h' 1 = Some (Strs (alphabet INITIAL_ENFA))
          \<and> cells h' 2 = Some (Trans (transitions INITIAL_ENFA))
          \<and> cells h' 3 = Some (Strs (finalStates INITIAL_ENFA))
          \<and> automaton_at h' 4 = INITIAL_ENFA
          \<and> automaton_at h' n = nfa INITIAL_RESULT)"
proof -
  have h1: "convertENFAToNFA INITIAL_ENFA = Inr INITIAL_RESULT" by (rule convert_INITIAL_ENFA)
  have h2: "allocated_automaton INITIAL_STORE 4"
    by (simp add: allocated_automaton_def INITIAL_STORE_def get_aut_def)
  have a: "automaton_at INITIAL_STORE 4 = INITIAL_ENFA"
    by (simp add: automaton_at_def INITIAL_STORE_def get_aut_def get_strs_def get_trans_def
        INITIAL_ENFA_def)
  have n: "next_free INITIAL_STORE = 5" by (simp add: INITIAL_STORE_def)
  note t = conversion_frame[of INITIAL_ENFA INITIAL_RESULT INITIAL_STORE 4]
  from t h1 have p: "states (nfa INITIAL_RESULT) = states INITIAL_ENFA"
    "initialState (nfa INITIAL_RESULT) = initialState INITIAL_ENFA" by simp_all
  have al: "alphabet (nfa INITIAL_RESULT) = [sym_0, sym_1]" by (simp add: INITIAL_RESULT_def)
  from t h2 obtain h' res where
    c: "convertENFAToNFA_at 4 INITIAL_STORE = Some (h', res)"
    and f: "\<forall>a<next_free INITIAL_STORE. cells h' a = cells INITIAL_STORE a"
    and u: "automaton_at h' 4 = automaton_at INITIAL_STORE 4"
    and v: "case convertENFAToNFA (automaton_at INITIAL_STORE 4) of
                 Inl err \<Rightarrow> res = Inl err
               | Inr r \<Rightarrow> (\<exists>n c. res = Inr (n, c) \<and> automaton_at h' n = nfa r
                             \<and> closures_at h' c = get_prop (closures r))"
    by blast
  from v a h1 obtain n' c' where r: "res = Inr (n', c')" "automaton_at h' n' = nfa INITIAL_RESULT"
    by auto
  have cells: "cells h' 0 = Some (Strs (states INITIAL_ENFA))"
    "cells h' 1 = Some (Strs (alphabet INITIAL_ENFA))"
    "cells h' 2 = Some (Trans (transitions INITIAL_ENFA))"
    "cells h' 3 = Some (Strs (finalStates INITIAL_ENFA))"
    using f n by (simp_all add: INITIAL_STORE_def)
  from h1 p al h2 a c r cells u show ?thesis by auto
qed

end
